theory Spec2Isabelle
  imports Complex_Main
begin

section \<open>Python values of a parsed YAML document\<close>

text \<open>
  Both scripts under \<^verbatim>\<open>src/helm-remove-defaults\<close> work on the value a YAML loader
  returns: \<^verbatim>\<open>None\<close>, a \<^verbatim>\<open>bool\<close>, an \<^verbatim>\<open>int\<close>, a \<^verbatim>\<open>float\<close>, a \<^verbatim>\<open>str\<close>, a list or a
  dict with string keys. A float is represented by the number it denotes (or by one of
  the three special values), which is all that \<^verbatim>\<open>==\<close> looks at. A dict is the list of
  its items in insertion order; a Python dict never holds a key twice, which is the
  predicate \<open>wf\<close> below.
\<close>

datatype pyfloat = FNaN | FInf bool | FFin rat

datatype pyval =
    PNone
  | PBool bool
  | PInt int
  | PFloat pyfloat
  | PStr string
  | PList "pyval list"
  | PDict "(string \<times> pyval) list"

type_synonym pydict = "(string \<times> pyval) list"

lemma size_item_less:
  "(k, v) \<in> set m \<Longrightarrow> size v < Suc (size_list (size_prod (\<lambda>_. 0) size) m)"
  by (induction m) auto

lemma size_elem_less:
  "x \<in> set xs \<Longrightarrow> size x < Suc (size_list size xs)"
  by (induction xs) auto

fun wf :: "pyval \<Rightarrow> bool" where
  "wf (PList xs) = list_all wf xs"
| "wf (PDict m) = (distinct (map fst m) \<and> list_all (\<lambda>(k, v). wf v) m)"
| "wf _ = True"

subsection \<open>Dict operations\<close>

text \<open>\<^verbatim>\<open>key in d\<close>, \<^verbatim>\<open>d.get(key)\<close> (which is \<^verbatim>\<open>None\<close> for a missing key),
  \<^verbatim>\<open>d.keys()\<close> and \<^verbatim>\<open>d[key] = v\<close>, which overwrites in place or appends.\<close>

definition dict_contains :: "pydict \<Rightarrow> string \<Rightarrow> bool" where
  "dict_contains d key = (map_of d key \<noteq> None)"

definition dict_get :: "pydict \<Rightarrow> string \<Rightarrow> pyval" where
  "dict_get d key = (case map_of d key of None \<Rightarrow> PNone | Some v \<Rightarrow> v)"

definition dict_keys :: "pydict \<Rightarrow> string list" where
  "dict_keys d = map fst d"

fun dict_set :: "pydict \<Rightarrow> string \<Rightarrow> pyval \<Rightarrow> pydict" where
  "dict_set [] key v = [(key, v)]"
| "dict_set ((k, w) # d) key v =
     (if k = key then (k, v) # d else (k, w) # dict_set d key v)"

subsection \<open>Python equality\<close>

text \<open>
  \<^verbatim>\<open>==\<close> compares \<^verbatim>\<open>bool\<close>, \<^verbatim>\<open>int\<close> and \<^verbatim>\<open>float\<close> by numeric value whatever the type
  (\<^verbatim>\<open>True == 1\<close>, \<^verbatim>\<open>1 == 1.0\<close>), and a NaN compared with \<^verbatim>\<open>==\<close> is equal to nothing,
  itself included. Lists are compared by length and then item by item, dicts by size and
  then by looking every key of the left one up in the right one.

  The items of a list and the values of a dict are not compared with \<^verbatim>\<open>==\<close> alone: Python
  first takes two items that are the same object as equal. Both loaders return one and
  the same float object for every \<^verbatim>\<open>.nan\<close> they read, so inside a list or a dict a NaN
  is equal to a NaN; for every other value \<^verbatim>\<open>==\<close> already holds between an object and
  itself. \<open>same_object\<close> is that test, as far as it adds anything to \<^verbatim>\<open>==\<close>.
\<close>

fun num_of :: "pyval \<Rightarrow> pyfloat option" where
  "num_of (PBool b) = Some (FFin (if b then 1 else 0))"
| "num_of (PInt i) = Some (FFin (of_int i))"
| "num_of (PFloat f) = Some f"
| "num_of _ = None"

definition float_eq :: "pyfloat \<Rightarrow> pyfloat \<Rightarrow> bool" where
  "float_eq a b = (a \<noteq> FNaN \<and> a = b)"

definition same_object :: "pyval \<Rightarrow> pyval \<Rightarrow> bool" where
  "same_object a b = (a = PFloat FNaN \<and> b = PFloat FNaN)"

function (sequential) py_eq :: "pyval \<Rightarrow> pyval \<Rightarrow> bool" where
  "py_eq PNone PNone = True"
| "py_eq (PStr s) (PStr t) = (s = t)"
| "py_eq (PList xs) (PList ys) =
     (length xs = length ys \<and> list_all2 (\<lambda>x y. same_object x y \<or> py_eq x y) xs ys)"
| "py_eq (PDict m) (PDict n) =
     (length m = length n \<and>
      list_all (\<lambda>(k, v). case map_of n k of None \<Rightarrow> False
                         | Some w \<Rightarrow> same_object v w \<or> py_eq v w) m)"
| "py_eq a b =
     (case (num_of a, num_of b) of
        (Some x, Some y) \<Rightarrow> float_eq x y
      | _ \<Rightarrow> False)"
  by pat_completeness auto
termination
  apply (relation "measure (\<lambda>(a, b). size a)")
    apply simp
   apply (auto dest: size_elem_less size_item_less)
  done

definition py_ne :: "pyval \<Rightarrow> pyval \<Rightarrow> bool" where
  "py_ne a b = (\<not> py_eq a b)"

text \<open>\<^verbatim>\<open>isinstance(v, (CommentedMap, dict))\<close> and \<^verbatim>\<open>isinstance(v, (CommentedSeq, list))\<close>;
  \<open>items\<close> reads the items of a value known to be a dict.\<close>

fun is_map :: "pyval \<Rightarrow> bool" where
  "is_map (PDict m) = True"
| "is_map _ = False"

fun is_seq :: "pyval \<Rightarrow> bool" where
  "is_seq (PList xs) = True"
| "is_seq _ = False"

fun items :: "pyval \<Rightarrow> pydict" where
  "items (PDict m) = m"
| "items _ = []"

lemma size_items_less: "(k, v) \<in> set (items a) \<Longrightarrow> size v < size a"
  by (cases a) (auto dest: size_item_less)

section \<open>The diff of \<^verbatim>\<open>main.py\<close>\<close>

text \<open>
  This script loads both documents with \<^verbatim>\<open>ruamel.yaml\<close>, whose maps, sequences and
  scalars are subclasses of \<^verbatim>\<open>dict\<close>, \<^verbatim>\<open>list\<close> and the scalar types and compare like them.
  The function returns a Python value; \<^verbatim>\<open>None\<close> is its "no difference". The loop
  \<^verbatim>\<open>for key in local_val\<close> with \<^verbatim>\<open>local_item = local_val[key]\<close> visits the items of the local
  dict in order, so it is a fold over them with \<^verbatim>\<open>diff_dict\<close> as the state.
\<close>

function compare_and_extract_diff :: "pyval \<Rightarrow> pyval \<Rightarrow> pyval" where
  "compare_and_extract_diff local_val default_val =
     (let local_is_map = is_map local_val;
          default_is_map = is_map default_val;
          local_is_seq = is_seq local_val;
          default_is_seq = is_seq default_val
      in
      if local_is_map \<noteq> default_is_map \<or> local_is_seq \<noteq> default_is_seq then
        (if local_val \<noteq> PNone then local_val else PNone)
      else if local_is_map then
        (let diff_dict =
           fold (\<lambda>(key, local_item) diff_dict.
                   let default_item = dict_get (items default_val) key in
                   if \<not> dict_contains (items default_val) key then
                     (if local_item \<noteq> PNone then dict_set diff_dict key local_item
                      else diff_dict)
                   else
                     (let sub_diff = compare_and_extract_diff local_item default_item in
                      if sub_diff \<noteq> PNone then dict_set diff_dict key sub_diff
                      else diff_dict))
                (items local_val) []
         in if diff_dict \<noteq> [] then PDict diff_dict else PNone)
      else if local_is_seq then
        (if py_ne local_val default_val then local_val else PNone)
      else
        (if py_ne local_val default_val then local_val else PNone))"
  by pat_completeness auto
termination
  apply (relation "measure (\<lambda>(a, b). size a)")
   apply simp
  apply (auto dest: size_items_less)
  done

declare compare_and_extract_diff.simps [simp del]

section \<open>The diff of \<^verbatim>\<open>main-ordered.py\<close>\<close>

text \<open>
  This script loads both documents with \<^verbatim>\<open>yaml.safe_load\<close>, so every value has exactly
  one of the seven types below, and \<^verbatim>\<open>type(local_val) != type(default_val)\<close> compares
  them. \<^verbatim>\<open>deepcopy\<close> returns an equal value.

  The loop runs over \<^verbatim>\<open>set(local_val.keys()) | set(default_val.keys())\<close>. The order in
  which Python iterates a set of strings is fixed by their hashes, which change from one
  run to the next; the parameter \<open>set_order\<close> is that order, as a function from the
  keys put into the set to the sequence the loop sees. \<open>is_set_order\<close> says what every
  such order has: each key once.
\<close>

datatype pytype = NoneType | bool_type | int_type | float_type | str_type | list_type | dict_type

fun py_type :: "pyval \<Rightarrow> pytype" where
  "py_type PNone = NoneType"
| "py_type (PBool b) = bool_type"
| "py_type (PInt i) = int_type"
| "py_type (PFloat f) = float_type"
| "py_type (PStr s) = str_type"
| "py_type (PList xs) = list_type"
| "py_type (PDict m) = dict_type"

definition deepcopy :: "pyval \<Rightarrow> pyval" where
  "deepcopy v = v"

definition is_set_order :: "(string list \<Rightarrow> string list) \<Rightarrow> bool" where
  "is_set_order set_order = (\<forall>ks. distinct (set_order ks) \<and> set (set_order ks) = set ks)"

text \<open>One such order, used in the examples below: last occurrences first to last, reversed.\<close>

definition reverse_order :: "string list \<Rightarrow> string list" where
  "reverse_order ks = rev (remdups ks)"

lemma size_dict_get_less:
  "dict_contains (items a) key \<Longrightarrow> size (dict_get (items a) key) < size a"
  by (auto simp: dict_contains_def dict_get_def split: option.splits
      dest!: map_of_SomeD size_items_less)

function compare_and_extract_diff_ordered ::
  "(string list \<Rightarrow> string list) \<Rightarrow> pyval \<Rightarrow> pyval \<Rightarrow> pyval" where
  "compare_and_extract_diff_ordered set_order local_val default_val =
     (if py_type local_val \<noteq> py_type default_val then
        (if local_val \<noteq> PNone then deepcopy local_val else PNone)
      else if is_map local_val then
        (let all_keys =
               set_order (dict_keys (items local_val) @ dict_keys (items default_val));
             diff_dict =
               fold (\<lambda>key diff_dict.
                       let local_item = dict_get (items local_val) key;
                           default_item = dict_get (items default_val) key in
                       if \<not> dict_contains (items default_val) key then
                         (if local_item \<noteq> PNone
                          then dict_set diff_dict key (deepcopy local_item)
                          else diff_dict)
                       else if \<not> dict_contains (items local_val) key then diff_dict
                       else
                         (let sub_diff =
                                compare_and_extract_diff_ordered set_order local_item default_item
                          in if sub_diff \<noteq> PNone then dict_set diff_dict key sub_diff
                             else diff_dict))
                    all_keys []
         in if diff_dict \<noteq> [] then PDict diff_dict else PNone)
      else if is_seq local_val then
        (if py_ne local_val default_val then deepcopy local_val else PNone)
      else
        (if py_ne local_val default_val then deepcopy local_val else PNone))"
  by pat_completeness auto
termination
  apply (relation "measure (\<lambda>(f, a, b). size a)")
   apply simp
  apply (auto dest: size_dict_get_less)
  done

declare compare_and_extract_diff_ordered.simps [simp del]

section \<open>What one pass of each loop adds\<close>

text \<open>The body of the loop of \<^verbatim>\<open>main.py\<close> for one item of the local dict, and the body
  of the loop of \<^verbatim>\<open>main-ordered.py\<close> for one key of the set: the entry it stores into
  \<^verbatim>\<open>diff_dict\<close>, if any.\<close>

definition main_item :: "pydict \<Rightarrow> string \<times> pyval \<Rightarrow> (string \<times> pyval) option" where
  "main_item dm = (\<lambda>(key, local_item).
     if \<not> dict_contains dm key then
       (if local_item \<noteq> PNone then Some (key, local_item) else None)
     else
       (let sub_diff = compare_and_extract_diff local_item (dict_get dm key) in
        if sub_diff \<noteq> PNone then Some (key, sub_diff) else None))"

definition ordered_item ::
  "(string list \<Rightarrow> string list) \<Rightarrow> pydict \<Rightarrow> pydict \<Rightarrow> string \<Rightarrow> (string \<times> pyval) option" where
  "ordered_item set_order lm dm key =
     (if \<not> dict_contains dm key then
        (if dict_get lm key \<noteq> PNone then Some (key, dict_get lm key) else None)
      else if \<not> dict_contains lm key then None
      else
        (let sub_diff =
               compare_and_extract_diff_ordered set_order (dict_get lm key) (dict_get dm key)
         in if sub_diff \<noteq> PNone then Some (key, sub_diff) else None))"

text \<open>The value either loop stores under \<open>key\<close> for a local item that is present, given
  the function \<open>f\<close> it calls for the recursive comparison.\<close>

definition diff_entry ::
  "(pyval \<Rightarrow> pyval \<Rightarrow> pyval) \<Rightarrow> pydict \<Rightarrow> string \<Rightarrow> pyval \<Rightarrow> pyval option" where
  "diff_entry f dm key local_item =
     (if \<not> dict_contains dm key then
        (if local_item \<noteq> PNone then Some local_item else None)
      else
        (let sub_diff = f local_item (dict_get dm key) in
         if sub_diff \<noteq> PNone then Some sub_diff else None))"

definition store :: "(string \<times> pyval) option \<Rightarrow> pydict \<Rightarrow> pydict" where
  "store e diff_dict = (case e of None \<Rightarrow> diff_dict | Some (k, v) \<Rightarrow> dict_set diff_dict k v)"

section \<open>The result as the specification reads it\<close>

text \<open>
  The specification calls the function \<^verbatim>\<open>extractOverrides\<close> and its result an optional
  tree. Both scripts return a Python value and their callers test it with
  \<^verbatim>\<open>is not None\<close>: the value \<^verbatim>\<open>None\<close> is the absent result, any other value is the
  tree. The four kinds of the specification's tree are read off the Python value.
\<close>

definition as_option :: "pyval \<Rightarrow> pyval option" where
  "as_option r = (if r = PNone then None else Some r)"

datatype kind = Mapping | Sequence | Scalar | Null

fun kind_of :: "pyval \<Rightarrow> kind" where
  "kind_of (PDict m) = Mapping"
| "kind_of (PList xs) = Sequence"
| "kind_of PNone = Null"
| "kind_of _ = Scalar"

section \<open>Equality and shapes of trees in the specification's terms\<close>

text \<open>
  The specification's structural equality, in its own words: two Scalars are equal iff
  they have the same logical type and the same value, two Sequences iff they have the
  same length and pairwise equal elements in order, two Mappings iff they have the same
  key set and equal values for every key. It is stated next to \<open>py_eq\<close>, the \<^verbatim>\<open>==\<close> that
  the scripts evaluate, so that the two can be compared.
\<close>

function (sequential) struct_eq :: "pyval \<Rightarrow> pyval \<Rightarrow> bool" where
  "struct_eq (PList xs) (PList ys) = (length xs = length ys \<and> list_all2 struct_eq xs ys)"
| "struct_eq (PDict m) (PDict n) =
     (set (map fst m) = set (map fst n) \<and>
      list_all (\<lambda>(k, v). case map_of n k of None \<Rightarrow> False | Some w \<Rightarrow> struct_eq v w) m)"
| "struct_eq a b = (a = b)"
  by pat_completeness auto
termination
  apply (relation "measure (\<lambda>(a, b). size a)")
    apply simp
   apply (auto dest: size_elem_less size_item_less)
  done

text \<open>
  Trees in which the recursion of the diff reaches no NaN as a value of its own: the tree
  is not a NaN, and no value of a Mapping, at any depth of Mappings, is one. A NaN inside
  a Sequence is allowed. And trees whose scalars are strings and integers only.
\<close>

fun no_scalar_nan :: "pyval \<Rightarrow> bool" where
  "no_scalar_nan (PFloat f) = (f \<noteq> FNaN)"
| "no_scalar_nan (PDict m) = list_all (\<lambda>(k, v). no_scalar_nan v) m"
| "no_scalar_nan _ = True"

fun plain :: "pyval \<Rightarrow> bool" where
  "plain (PBool b) = False"
| "plain (PFloat f) = False"
| "plain (PList xs) = list_all plain xs"
| "plain (PDict m) = list_all (\<lambda>(k, v). plain v) m"
| "plain _ = True"

text \<open>
  Where the two scripts can part: \<^verbatim>\<open>main.py\<close> compares two primitives with \<^verbatim>\<open>!=\<close> alone,
  \<^verbatim>\<open>main-ordered.py\<close> compares their types first. \<open>types_agree local default\<close> says that
  this makes no difference anywhere the recursion goes: whenever a local and a default
  value that are neither dict nor list meet under the same keys and Python calls them
  equal, they have the same type.
\<close>

function (sequential) types_agree :: "pyval \<Rightarrow> pyval \<Rightarrow> bool" where
  "types_agree (PDict lm) (PDict dm) =
     list_all (\<lambda>(k, v). case map_of dm k of None \<Rightarrow> True | Some w \<Rightarrow> types_agree v w) lm"
| "types_agree l d =
     (is_map l \<or> is_seq l \<or> is_map d \<or> is_seq d \<or> py_type l = py_type d \<or> \<not> py_eq l d)"
  by pat_completeness auto
termination
  apply (relation "measure (\<lambda>(a, b). size a)")
   apply simp
  apply (auto dest: size_item_less)
  done

section \<open>The two functions with Python's exceptions made explicit\<close>

text \<open>
  Neither function has a \<^verbatim>\<open>raise\<close>. What can raise is, first, the dict operations they
  apply: iterating a value, \<^verbatim>\<open>local_val[key]\<close>, \<^verbatim>\<open>.get(key)\<close>, \<^verbatim>\<open>key in default_val\<close> and
  \<^verbatim>\<open>.keys()\<close>. Here each of them succeeds on a dict only and fails on every other value
  (Python is more lenient for iteration and \<^verbatim>\<open>in\<close> on lists and strings, so a run without
  such an error here is one without it there), and a subscript with a missing key is a
  \<^verbatim>\<open>KeyError\<close>.

  Second, the interpreter raises \<^verbatim>\<open>RecursionError\<close> when calls are nested deeper than its
  recursion limit. The functions below take the number of calls that may still be
  nested, the call itself included: with none left the call raises, and what runs in
  its body has one less.

  What runs in the body nests calls of its own, and how many is a matter of the
  interpreter and of the library the values come from (\<^verbatim>\<open>ruamel.yaml\<close>'s
  \<^verbatim>\<open>CommentedMap\<close> implements its methods in Python, a built-in dict does not), not of
  the two scripts. So these numbers are parameters of the model, collected in a record:
  \<open>op_frames\<close> for a test of the kind of a value (\<^verbatim>\<open>isinstance\<close> against an abstract
  class, the comparison of two types) and for an operation on a mapping, \<open>ne_frames\<close>
  for the comparison \<^verbatim>\<open>a != b\<close> of two values, which descends into lists and dicts,
  and \<open>copy_frames\<close> for \<^verbatim>\<open>copy.deepcopy\<close>, which is Python code that calls itself on every
  item. An operation raises \<^verbatim>\<open>RecursionError\<close> when it needs more calls than are left.
  Both functions start with a test of the kind of their arguments, so a call that
  gets past it has enough calls left for every operation on a mapping in its body.

  The loops are written out as recursive functions over the keys still to visit, and an
  error ends the run.
\<close>

datatype py_error = KeyError | AttributeError | TypeError | RecursionError

fun py_iter :: "pyval \<Rightarrow> py_error + string list" where
  "py_iter (PDict m) = Inr (dict_keys m)"
| "py_iter _ = Inl TypeError"

fun py_subscript :: "pyval \<Rightarrow> string \<Rightarrow> py_error + pyval" where
  "py_subscript (PDict m) key = (case map_of m key of None \<Rightarrow> Inl KeyError | Some v \<Rightarrow> Inr v)"
| "py_subscript _ key = Inl TypeError"

fun py_get :: "pyval \<Rightarrow> string \<Rightarrow> py_error + pyval" where
  "py_get (PDict m) key = Inr (dict_get m key)"
| "py_get _ key = Inl AttributeError"

fun py_in :: "string \<Rightarrow> pyval \<Rightarrow> py_error + bool" where
  "py_in key (PDict m) = Inr (dict_contains m key)"
| "py_in key _ = Inl TypeError"

fun py_keys :: "pyval \<Rightarrow> py_error + string list" where
  "py_keys (PDict m) = Inr (dict_keys m)"
| "py_keys _ = Inl AttributeError"

text \<open>The depth of nesting of a value: 0 for a scalar or Null, one more than its deepest
  item for a list or a dict.\<close>

function depth :: "pyval \<Rightarrow> nat" where
  "depth (PList xs) = Suc (fold max (map depth xs) 0)"
| "depth (PDict m) = Suc (fold max (map (\<lambda>(k, v). depth v) m) 0)"
| "depth PNone = 0"
| "depth (PBool b) = 0"
| "depth (PInt i) = 0"
| "depth (PFloat f) = 0"
| "depth (PStr s) = 0"
  by pat_completeness auto
termination
  apply (relation "measure size")
    apply simp
   apply (auto dest: size_elem_less size_item_less)
  done

record interp =
  op_frames :: nat
  ne_frames :: "pyval \<Rightarrow> pyval \<Rightarrow> nat"
  copy_frames :: "pyval \<Rightarrow> nat"

definition py_ne_exc :: "interp \<Rightarrow> nat \<Rightarrow> pyval \<Rightarrow> pyval \<Rightarrow> py_error + bool" where
  "py_ne_exc I frames a b =
     (if ne_frames I a b \<le> frames then Inr (py_ne a b) else Inl RecursionError)"

definition deepcopy_exc :: "interp \<Rightarrow> nat \<Rightarrow> pyval \<Rightarrow> py_error + pyval" where
  "deepcopy_exc I frames v =
     (if copy_frames I v \<le> frames then Inr (deepcopy v) else Inl RecursionError)"

function compare_and_extract_diff_exc ::
    "interp \<Rightarrow> nat \<Rightarrow> pyval \<Rightarrow> pyval \<Rightarrow> py_error + pyval"
  and main_loop_exc ::
    "interp \<Rightarrow> nat \<Rightarrow> pyval \<Rightarrow> pyval \<Rightarrow> string list \<Rightarrow> pydict \<Rightarrow> py_error + pydict"
where
  "compare_and_extract_diff_exc I 0 local_val default_val = Inl RecursionError"
| "compare_and_extract_diff_exc I (Suc frames) local_val default_val =
     (if frames < op_frames I then Inl RecursionError
      else if is_map local_val \<noteq> is_map default_val \<or> is_seq local_val \<noteq> is_seq default_val then
        Inr (if local_val \<noteq> PNone then local_val else PNone)
      else if is_map local_val then
        (case py_iter local_val of
           Inl e \<Rightarrow> Inl e
         | Inr keys \<Rightarrow>
             (case main_loop_exc I frames local_val default_val keys [] of
                Inl e \<Rightarrow> Inl e
              | Inr diff_dict \<Rightarrow> Inr (if diff_dict \<noteq> [] then PDict diff_dict else PNone)))
      else if is_seq local_val then
        (case py_ne_exc I frames local_val default_val of
           Inl e \<Rightarrow> Inl e
         | Inr differs \<Rightarrow> Inr (if differs then local_val else PNone))
      else
        (case py_ne_exc I frames local_val default_val of
           Inl e \<Rightarrow> Inl e
         | Inr differs \<Rightarrow> Inr (if differs then local_val else PNone)))"
| "main_loop_exc I frames local_val default_val [] diff_dict = Inr diff_dict"
| "main_loop_exc I frames local_val default_val (key # keys) diff_dict =
     (case py_subscript local_val key of
        Inl e \<Rightarrow> Inl e
      | Inr local_item \<Rightarrow>
     (case py_get default_val key of
        Inl e \<Rightarrow> Inl e
      | Inr default_item \<Rightarrow>
     (case py_in key default_val of
        Inl e \<Rightarrow> Inl e
      | Inr in_default \<Rightarrow>
          if \<not> in_default then
            main_loop_exc I frames local_val default_val keys
              (if local_item \<noteq> PNone then dict_set diff_dict key local_item else diff_dict)
          else
            (case compare_and_extract_diff_exc I frames local_item default_item of
               Inl e \<Rightarrow> Inl e
             | Inr sub_diff \<Rightarrow>
                 main_loop_exc I frames local_val default_val keys
                   (if sub_diff \<noteq> PNone then dict_set diff_dict key sub_diff
                    else diff_dict)))))"
  by pat_completeness auto
termination
  apply (relation "inv_image (less_than <*lex*> less_than)
      (\<lambda>x. case x of Inl (I, n, l, d) \<Rightarrow> (2 * n, 0)
                   | Inr (I, n, l, d, ks, acc) \<Rightarrow> (2 * n + 1, length ks))")
      apply auto
  done

declare compare_and_extract_diff_exc.simps(2) [simp del]

function compare_and_extract_diff_ordered_exc ::
    "interp \<Rightarrow> (string list \<Rightarrow> string list) \<Rightarrow> nat \<Rightarrow> pyval \<Rightarrow> pyval \<Rightarrow> py_error + pyval"
  and ordered_loop_exc ::
    "interp \<Rightarrow> (string list \<Rightarrow> string list) \<Rightarrow> nat \<Rightarrow> pyval \<Rightarrow> pyval \<Rightarrow> string list \<Rightarrow>
      pydict \<Rightarrow> py_error + pydict"
where
  "compare_and_extract_diff_ordered_exc I set_order 0 local_val default_val =
     Inl RecursionError"
| "compare_and_extract_diff_ordered_exc I set_order (Suc frames) local_val default_val =
     (if frames < op_frames I then Inl RecursionError
      else if py_type local_val \<noteq> py_type default_val then
        (if local_val \<noteq> PNone then deepcopy_exc I frames local_val else Inr PNone)
      else if is_map local_val then
        (case py_keys local_val of
           Inl e \<Rightarrow> Inl e
         | Inr local_keys \<Rightarrow>
        (case py_keys default_val of
           Inl e \<Rightarrow> Inl e
         | Inr default_keys \<Rightarrow>
        (case ordered_loop_exc I set_order frames local_val default_val
                (set_order (local_keys @ default_keys)) [] of
           Inl e \<Rightarrow> Inl e
         | Inr diff_dict \<Rightarrow> Inr (if diff_dict \<noteq> [] then PDict diff_dict else PNone))))
      else if is_seq local_val then
        (case py_ne_exc I frames local_val default_val of
           Inl e \<Rightarrow> Inl e
         | Inr differs \<Rightarrow> if differs then deepcopy_exc I frames local_val else Inr PNone)
      else
        (case py_ne_exc I frames local_val default_val of
           Inl e \<Rightarrow> Inl e
         | Inr differs \<Rightarrow> if differs then deepcopy_exc I frames local_val else Inr PNone))"
| "ordered_loop_exc I set_order frames local_val default_val [] diff_dict = Inr diff_dict"
| "ordered_loop_exc I set_order frames local_val default_val (key # keys) diff_dict =
     (case py_get local_val key of
        Inl e \<Rightarrow> Inl e
      | Inr local_item \<Rightarrow>
     (case py_get default_val key of
        Inl e \<Rightarrow> Inl e
      | Inr default_item \<Rightarrow>
     (case py_in key default_val of
        Inl e \<Rightarrow> Inl e
      | Inr in_default \<Rightarrow>
          if \<not> in_default then
            (if local_item \<noteq> PNone then
               (case deepcopy_exc I frames local_item of
                  Inl e \<Rightarrow> Inl e
                | Inr copied \<Rightarrow>
                    ordered_loop_exc I set_order frames local_val default_val keys
                      (dict_set diff_dict key copied))
             else ordered_loop_exc I set_order frames local_val default_val keys diff_dict)
          else
            (case py_in key local_val of
               Inl e \<Rightarrow> Inl e
             | Inr in_local \<Rightarrow>
                 if \<not> in_local then
                   ordered_loop_exc I set_order frames local_val default_val keys diff_dict
                 else
                   (case compare_and_extract_diff_ordered_exc I set_order frames
                           local_item default_item of
                      Inl e \<Rightarrow> Inl e
                    | Inr sub_diff \<Rightarrow>
                        ordered_loop_exc I set_order frames local_val default_val keys
                          (if sub_diff \<noteq> PNone then dict_set diff_dict key sub_diff
                           else diff_dict))))))"
  by pat_completeness auto
termination
  apply (relation "inv_image (less_than <*lex*> less_than)
      (\<lambda>x. case x of Inl (I, f, n, l, d) \<Rightarrow> (2 * n, 0)
                   | Inr (I, f, n, l, d, ks, acc) \<Rightarrow> (2 * n + 1, length ks))")
        apply auto
  done

declare compare_and_extract_diff_ordered_exc.simps(2) [simp del]

text \<open>
  The costs are within a margin \<open>c\<close> when a test or an operation on a mapping nests at
  most \<open>c\<close> calls, a comparison at most \<open>c\<close> more than the depth of its left operand, and a
  deep copy at most \<open>c\<close> more than twice the depth of the value.
\<close>

definition within_margin :: "interp \<Rightarrow> nat \<Rightarrow> bool" where
  "within_margin I c =
     (op_frames I \<le> c \<and> (\<forall>a b. ne_frames I a b \<le> depth a + c) \<and>
      (\<forall>v. copy_frames I v \<le> 2 * depth v + c))"

text \<open>
  Two instances for the examples, for CPython 3.11 on built-in dicts and lists, one
  from above and one from below. There a test against an abstract class nests at most 4
  calls and the operations on a dict none; \<^verbatim>\<open>a != b\<close> nests one call for every level at
  which it compares, which is at most one more than the depth of the shallower operand;
  and \<^verbatim>\<open>deepcopy(x)\<close> is one call, which for a list or a dict calls \<^verbatim>\<open>_deepcopy_list\<close> or
  \<^verbatim>\<open>_deepcopy_dict\<close>, which calls \<^verbatim>\<open>deepcopy\<close> on every item, and for a scalar calls
  \<^verbatim>\<open>_deepcopy_atomic\<close>: two calls for every level of nesting, and at most two more. From
  below, only the two calls for every level of nesting of a deep copy are counted.
\<close>

definition cpython_at_most :: interp where
  "cpython_at_most =
     \<lparr>op_frames = 4, ne_frames = (\<lambda>a b. min (depth a) (depth b) + 1),
      copy_frames = (\<lambda>v. 2 * depth v + 2)\<rparr>"

definition cpython_at_least :: interp where
  "cpython_at_least =
     \<lparr>op_frames = 0, ne_frames = (\<lambda>a b. 0), copy_frames = (\<lambda>v. 2 * depth v)\<rparr>"

text \<open>Trees nested to a given depth, Mapping in Mapping and Sequence in Sequence, around a
  value.\<close>

fun nested_mapping :: "nat \<Rightarrow> pyval \<Rightarrow> pyval" where
  "nested_mapping 0 v = v"
| "nested_mapping (Suc n) v = PDict [(''a'', nested_mapping n v)]"

fun nested_sequence :: "nat \<Rightarrow> pyval \<Rightarrow> pyval" where
  "nested_sequence 0 v = v"
| "nested_sequence (Suc n) v = PList [nested_sequence n v]"

section \<open>Merging an override onto the defaults\<close>

text \<open>
  Modelled from the spec: the merge of an override tree onto the default tree is not in
  the repository (Helm does it when the values file is used). The specification names it
  an override-wins-on-conflict merge whose result reproduces the local document: where
  override and default are both Mappings their entries are merged key by key, the
  default keeping its place and new keys being appended, and at any other conflict the
  override's value replaces the default's.
\<close>

function (sequential) merge :: "pyval \<Rightarrow> pyval \<Rightarrow> pyval" where
  "merge (PDict om) (PDict bm) =
     PDict (fold (\<lambda>(k, v) acc.
                    dict_set acc k (if dict_contains bm k then merge v (dict_get bm k) else v))
                 om bm)"
| "merge override base = override"
  by pat_completeness auto
termination
  apply (relation "measure (\<lambda>(a, b). size a)")
   apply simp
  apply (auto dest: size_item_less)
  done

text \<open>
  The round trip as the specification states it: the merged tree is structurally equal
  to the local one, except that it may hold keys that only the default has, and that a
  local Null over a non-null default is not reproduced. The third argument is the merged
  tree, the second the default at the same place.
\<close>

function (sequential) roundtrip_stated :: "pyval \<Rightarrow> pyval \<Rightarrow> pyval \<Rightarrow> bool" where
  "roundtrip_stated (PDict lm) d (PDict mm) =
     (list_all (\<lambda>(k, v).
          (v = PNone \<and> dict_contains (items d) k \<and> dict_get (items d) k \<noteq> PNone) \<or>
          (case map_of mm k of None \<Rightarrow> False
           | Some w \<Rightarrow> roundtrip_stated v (dict_get (items d) k) w)) lm \<and>
      list_all (\<lambda>(k, w). dict_contains lm k \<or> dict_contains (items d) k) mm)"
| "roundtrip_stated l d m = struct_eq l m"
  by pat_completeness auto
termination
  apply (relation "measure (\<lambda>(a, b, c). size a)")
   apply simp
  apply (auto dest: size_item_less)
  done

text \<open>
  The round trip that holds. The second argument is the default at the same place, the
  third the merged tree. Where local and default are both Mappings, the merged tree is a
  Mapping and
  \<^item> under a local key whose value is Null it has what the default has: the default's
    value if the default has the key, no entry if it has not;
  \<^item> under every other local key it has an entry: the local value itself if the default
    lacks the key, and a value that reproduces the local one in turn if it has it;
  \<^item> every other key of the merged tree is a key of the default with the default's value,
    and every key that only the default has is in the merged tree with that value.

  Everywhere else the merged value is the local value itself, or it is the default's
  value and Python's \<^verbatim>\<open>==\<close> holds between the local and the default value.
\<close>

function (sequential) reproduces :: "pyval \<Rightarrow> pyval \<Rightarrow> pyval \<Rightarrow> bool" where
  "reproduces (PDict lm) (PDict dm) (PDict mm) =
     (list_all (\<lambda>(k, v).
          if v = PNone then map_of mm k = map_of dm k
          else (case map_of mm k of None \<Rightarrow> False
                | Some w \<Rightarrow> (case map_of dm k of None \<Rightarrow> w = v
                            | Some dv \<Rightarrow> reproduces v dv w))) lm \<and>
      list_all (\<lambda>(k, w). dict_contains lm k \<or> map_of dm k = Some w) mm \<and>
      list_all (\<lambda>(k, dv). dict_contains lm k \<or> map_of mm k = Some dv) dm)"
| "reproduces l d m = (m = l \<or> (m = d \<and> py_eq l d))"
  by pat_completeness auto
termination
  apply (relation "measure (\<lambda>(a, b, c). size a)")
   apply simp
  apply (auto dest: size_item_less)
  done

section \<open>The two functions, case by case\<close>

lemma cmp_dict:
  "compare_and_extract_diff (PDict lm) (PDict dm) =
     (let out = fold (\<lambda>e. store (main_item dm e)) lm [] in if out \<noteq> [] then PDict out else PNone)"
proof -
  have "(\<lambda>(key, local_item) diff_dict.
                   let default_item = dict_get dm key in
                   if \<not> dict_contains dm key then
                     (if local_item \<noteq> PNone then dict_set diff_dict key local_item
                      else diff_dict)
                   else
                     (let sub_diff = compare_and_extract_diff local_item default_item in
                      if sub_diff \<noteq> PNone then dict_set diff_dict key sub_diff
                      else diff_dict)) = (\<lambda>e. store (main_item dm e))"
    by (auto simp: fun_eq_iff store_def main_item_def Let_def)
  then show ?thesis
    by (subst compare_and_extract_diff.simps) (simp add: Let_def)
qed

lemma ord_dict:
  "compare_and_extract_diff_ordered so (PDict lm) (PDict dm) =
     (let out = fold (\<lambda>k. store (ordered_item so lm dm k)) (so (dict_keys lm @ dict_keys dm)) []
      in if out \<noteq> [] then PDict out else PNone)"
proof -
  have "(\<lambda>key diff_dict.
                       let local_item = dict_get lm key;
                           default_item = dict_get dm key in
                       if \<not> dict_contains dm key then
                         (if local_item \<noteq> PNone
                          then dict_set diff_dict key (deepcopy local_item)
                          else diff_dict)
                       else if \<not> dict_contains lm key then diff_dict
                       else
                         (let sub_diff =
                                compare_and_extract_diff_ordered so local_item default_item
                          in if sub_diff \<noteq> PNone then dict_set diff_dict key sub_diff
                             else diff_dict)) = (\<lambda>k. store (ordered_item so lm dm k))"
    by (auto simp: fun_eq_iff store_def ordered_item_def Let_def deepcopy_def)
  then show ?thesis
    by (subst compare_and_extract_diff_ordered.simps) (simp add: Let_def cong: if_cong)
qed

lemma dict_set_append: "key \<notin> fst ` set d \<Longrightarrow> dict_set d key v = d @ [(key, v)]"
  by (induction d key v rule: dict_set.induct) auto

lemma fold_store:
  assumes "\<And>x k v. x \<in> set xs \<Longrightarrow> f x = Some (k, v) \<Longrightarrow> k = g x"
    and "distinct (map g xs)" and "fst ` set acc \<inter> g ` set xs = {}"
  shows "fold (\<lambda>x. store (f x)) xs acc = acc @ List.map_filter f xs"
  using assms
proof (induction xs arbitrary: acc)
  case Nil
  then show ?case by (simp add: List.map_filter_simps)
next
  case (Cons x xs)
  show ?case
  proof (cases "f x")
    case None
    with Cons show ?thesis by (simp add: store_def List.map_filter_simps)
  next
    case (Some e)
    obtain k v where e: "e = (k, v)" by (cases e)
    with Some Cons.prems(1)[of x k v] have k: "k = g x" by simp
    have "store (f x) acc = acc @ [(k, v)]"
      using Some e k Cons.prems(3) by (auto simp: store_def dict_set_append)
    moreover have "fold (\<lambda>x. store (f x)) xs (acc @ [(k, v)]) = (acc @ [(k, v)]) @ List.map_filter f xs"
      using Cons.prems k by (intro Cons.IH) auto
    ultimately show ?thesis using Some e by (simp add: List.map_filter_simps)
  qed
qed


lemma cmp_mismatch:
  "is_map l \<noteq> is_map d \<or> is_seq l \<noteq> is_seq d \<Longrightarrow> compare_and_extract_diff l d = l"
  by (subst compare_and_extract_diff.simps) (simp add: Let_def)

lemma cmp_list:
  "compare_and_extract_diff (PList xs) (PList ys) =
     (if py_eq (PList xs) (PList ys) then PNone else PList xs)"
  by (subst compare_and_extract_diff.simps) (simp add: Let_def py_ne_def)

lemma cmp_prim:
  "\<not> is_map l \<Longrightarrow> \<not> is_seq l \<Longrightarrow> \<not> is_map d \<Longrightarrow> \<not> is_seq d \<Longrightarrow>
   compare_and_extract_diff l d = (if py_eq l d then PNone else l)"
  by (subst compare_and_extract_diff.simps) (simp add: Let_def py_ne_def)

lemma ord_mismatch:
  "py_type l \<noteq> py_type d \<Longrightarrow> compare_and_extract_diff_ordered so l d = l"
  by (subst compare_and_extract_diff_ordered.simps) (simp add: deepcopy_def)

lemma ord_list:
  "compare_and_extract_diff_ordered so (PList xs) (PList ys) =
     (if py_eq (PList xs) (PList ys) then PNone else PList xs)"
  by (subst compare_and_extract_diff_ordered.simps) (simp add: deepcopy_def py_ne_def)

lemma ord_prim:
  "py_type l = py_type d \<Longrightarrow> \<not> is_map l \<Longrightarrow>
   compare_and_extract_diff_ordered so l d = (if py_eq l d then PNone else l)"
  by (subst compare_and_extract_diff_ordered.simps) (simp add: deepcopy_def py_ne_def)


lemma dict_contains_iff: "dict_contains d k \<longleftrightarrow> k \<in> fst ` set d"
  by (simp add: dict_contains_def map_of_eq_None_iff)

lemma dict_set_keys: "fst ` set (dict_set d k v) = insert k (fst ` set d)"
  by (induction d k v rule: dict_set.induct) auto

lemma store_keys:
  "fst ` set (store e acc) = (case e of None \<Rightarrow> {} | Some (k, v) \<Rightarrow> {k}) \<union> fst ` set acc"
  by (auto simp: store_def dict_set_keys split: option.splits)

lemma fold_store_keys:
  "fst ` set (fold (\<lambda>x. store (f x)) xs acc) =
     fst ` set acc \<union> {k. \<exists>x\<in>set xs. \<exists>v. f x = Some (k, v)}"
proof (induction xs arbitrary: acc)
  case Nil
  then show ?case by simp
next
  case (Cons x xs)
  show ?case
    by (cases "f x") (auto simp: Cons.IH store_keys)
qed

lemma fold_store_Nil:
  "(\<And>x. x \<in> set xs \<Longrightarrow> f x = None) \<Longrightarrow> fold (\<lambda>x. store (f x)) xs acc = acc"
  by (induction xs arbitrary: acc) (auto simp: store_def)

lemma main_item_key: "main_item dm (k, v) = Some (k', w) \<Longrightarrow> k' = k"
  by (auto simp: main_item_def Let_def split: if_splits)

lemma ordered_item_key: "ordered_item so lm dm k = Some (k', w) \<Longrightarrow> k' = k"
  by (auto simp: ordered_item_def Let_def split: if_splits)

lemma cmp_not_empty_dict: "kind_of l = kind_of d \<Longrightarrow> compare_and_extract_diff l d \<noteq> PDict []"
  by (cases l; cases d) (auto simp: cmp_dict cmp_list cmp_prim Let_def)

lemma ord_not_empty_dict:
  "kind_of l = kind_of d \<Longrightarrow> compare_and_extract_diff_ordered so l d \<noteq> PDict []"
proof (cases "py_type l = py_type d")
  case True
  assume "kind_of l = kind_of d"
  with True show ?thesis
    by (cases l; cases d) (auto simp: ord_dict ord_list ord_prim Let_def)
next
  case False
  assume "kind_of l = kind_of d"
  with False show ?thesis
    by (cases l; cases d) (auto simp: ord_mismatch)
qed

lemma cmp_all_matching:
  "list_all (\<lambda>(k, v). dict_contains dm k \<and> compare_and_extract_diff v (dict_get dm k) = PNone) lm
   \<Longrightarrow> compare_and_extract_diff (PDict lm) (PDict dm) = PNone"
proof -
  assume a: "list_all (\<lambda>(k, v). dict_contains dm k \<and>
      compare_and_extract_diff v (dict_get dm k) = PNone) lm"
  have "fold (\<lambda>e. store (main_item dm e)) lm [] = []"
  proof (rule fold_store_Nil)
    fix x assume "x \<in> set lm"
    with a show "main_item dm x = None"
      by (cases x) (auto simp: list_all_iff main_item_def)
  qed
  then show ?thesis by (simp add: cmp_dict)
qed

lemma dict_get_in:
  "dict_contains lm k \<Longrightarrow> (k, dict_get lm k) \<in> set lm"
  by (auto simp: dict_contains_def dict_get_def dest: map_of_SomeD)

lemma ord_all_matching:
  "list_all (\<lambda>(k, v). dict_contains dm k \<and>
       compare_and_extract_diff_ordered so v (dict_get dm k) = PNone) lm
   \<Longrightarrow> compare_and_extract_diff_ordered so (PDict lm) (PDict dm) = PNone"
proof -
  assume a: "list_all (\<lambda>(k, v). dict_contains dm k \<and>
      compare_and_extract_diff_ordered so v (dict_get dm k) = PNone) lm"
  have "fold (\<lambda>k. store (ordered_item so lm dm k)) (so (dict_keys lm @ dict_keys dm)) [] = []"
  proof (rule fold_store_Nil)
    fix k
    show "ordered_item so lm dm k = None"
    proof (cases "dict_contains lm k")
      case True
      from dict_get_in[OF True] a
      have "dict_contains dm k \<and>
        compare_and_extract_diff_ordered so (dict_get lm k) (dict_get dm k) = PNone"
        by (auto simp: list_all_iff)
      then show ?thesis by (simp add: ordered_item_def)
    next
      case False
      then show ?thesis
        by (simp add: ordered_item_def dict_contains_def dict_get_def)
    qed
  qed
  then show ?thesis by (simp add: ord_dict)
qed

lemma cmp_None_local: "compare_and_extract_diff PNone d = PNone"
  by (cases d) (auto simp: cmp_mismatch cmp_prim)

lemma ord_None_local: "compare_and_extract_diff_ordered so PNone d = PNone"
  by (cases d) (auto simp: ord_mismatch ord_prim)

lemma map_of_distinct_in:
  "distinct (map fst m) \<Longrightarrow> (k, v) \<in> set m \<Longrightarrow> map_of m k = Some v"
  by simp

lemma cmp_dict_keys:
  "fst ` set (items (compare_and_extract_diff (PDict lm) (PDict dm))) =
     {k. \<exists>x\<in>set lm. \<exists>v. main_item dm x = Some (k, v)}"
  using fold_store_keys [of "main_item dm" lm "[]"]
  by (cases "fold (\<lambda>e. store (main_item dm e)) lm [] = []") (simp_all add: cmp_dict Let_def)

lemma ord_dict_keys:
  "fst ` set (items (compare_and_extract_diff_ordered so (PDict lm) (PDict dm))) =
     {k. \<exists>x\<in>set (so (dict_keys lm @ dict_keys dm)). \<exists>v. ordered_item so lm dm x = Some (k, v)}"
  using fold_store_keys [of "ordered_item so lm dm" "so (dict_keys lm @ dict_keys dm)" "[]"]
  by (cases "fold (\<lambda>k. store (ordered_item so lm dm k)) (so (dict_keys lm @ dict_keys dm)) [] = []")
    (simp_all add: ord_dict Let_def)


lemma py_eq_refl: "wf x \<Longrightarrow> same_object x x \<or> py_eq x x"
proof (induction x)
  case (PList xs)
  then have "list_all2 (\<lambda>x y. same_object x y \<or> py_eq x y) xs xs"
    by (auto simp: list_all_iff intro!: list.rel_refl_strong)
  then show ?case by simp
next
  case (PDict m)
  have "(case map_of m k of None \<Rightarrow> False | Some w \<Rightarrow> same_object v w \<or> py_eq v w)"
    if "(k, v) \<in> set m" for k v
  proof -
    from PDict.prems that have "map_of m k = Some v" by simp
    moreover from PDict.prems that have "wf v" by (auto simp: list_all_iff)
    with PDict.IH that have "same_object v v \<or> py_eq v v" by fastforce
    ultimately show ?thesis by simp
  qed
  then show ?case by (auto simp: list_all_iff)
qed (auto simp: float_eq_def same_object_def)

lemma py_eq_refl_not_nan: "wf x \<Longrightarrow> x \<noteq> PFloat FNaN \<Longrightarrow> py_eq x x"
  using py_eq_refl[of x] by (auto simp: same_object_def)

lemma dict_get_distinct:
  "distinct (map fst m) \<Longrightarrow> (k, v) \<in> set m \<Longrightarrow> dict_get m k = v"
  by (simp add: dict_get_def)

lemma cmp_self: "wf x \<Longrightarrow> no_scalar_nan x \<Longrightarrow> compare_and_extract_diff x x = PNone"
proof (induction x)
  case (PList xs)
  then show ?case using py_eq_refl_not_nan[of "PList xs"] by (simp add: cmp_list)
next
  case (PDict m)
  show ?case
  proof (rule cmp_all_matching, unfold list_all_iff, rule ballI)
    fix x assume x: "x \<in> set m"
    obtain k v where kv: "x = (k, v)" by (cases x)
    from PDict.prems x kv have "wf v" "no_scalar_nan v" by (auto simp: list_all_iff)
    with PDict.IH x kv have "compare_and_extract_diff v v = PNone" by fastforce
    moreover from PDict.prems x kv have "dict_get m k = v" by (simp add: dict_get_distinct)
    moreover from x kv have "dict_contains m k" by (force simp: dict_contains_iff)
    ultimately show "case x of (k, v) \<Rightarrow> dict_contains m k \<and>
      compare_and_extract_diff v (dict_get m k) = PNone"
      using kv by simp
  qed
qed (auto simp: cmp_prim float_eq_def)

lemma ord_self:
  "wf x \<Longrightarrow> no_scalar_nan x \<Longrightarrow> compare_and_extract_diff_ordered so x x = PNone"
proof (induction x)
  case (PList xs)
  then show ?case using py_eq_refl_not_nan[of "PList xs"] by (simp add: ord_list)
next
  case (PDict m)
  show ?case
  proof (rule ord_all_matching, unfold list_all_iff, rule ballI)
    fix x assume x: "x \<in> set m"
    obtain k v where kv: "x = (k, v)" by (cases x)
    from PDict.prems x kv have "wf v" "no_scalar_nan v" by (auto simp: list_all_iff)
    with PDict.IH x kv have "compare_and_extract_diff_ordered so v v = PNone" by fastforce
    moreover from PDict.prems x kv have "dict_get m k = v" by (simp add: dict_get_distinct)
    moreover from x kv have "dict_contains m k" by (force simp: dict_contains_iff)
    ultimately show "case x of (k, v) \<Rightarrow> dict_contains m k \<and>
      compare_and_extract_diff_ordered so v (dict_get m k) = PNone"
      using kv by simp
  qed
qed (auto simp: ord_prim float_eq_def)

lemma items_nonempty_not_None: "k \<in> fst ` set (items r) \<Longrightarrow> r \<noteq> PNone"
  by auto

lemma cmp_self_scalar_nan:
  "wf x \<Longrightarrow> \<not> no_scalar_nan x \<Longrightarrow> compare_and_extract_diff x x \<noteq> PNone"
proof (induction x)
  case (PDict m)
  from PDict.prems(2) obtain k v where kv: "(k, v) \<in> set m" "\<not> no_scalar_nan v"
    by (auto simp: list_all_iff)
  from PDict.prems(1) kv have "wf v" by (auto simp: list_all_iff)
  with PDict.IH[of "(k, v)" v] kv have sub: "compare_and_extract_diff v v \<noteq> PNone" by simp
  from PDict.prems(1) kv have g: "dict_get m k = v" by (simp add: dict_get_distinct)
  from kv have c: "dict_contains m k" by (force simp: dict_contains_iff)
  from sub g c have "main_item m (k, v) = Some (k, compare_and_extract_diff v v)"
    by (simp add: main_item_def)
  with kv have "k \<in> fst ` set (items (compare_and_extract_diff (PDict m) (PDict m)))"
    unfolding cmp_dict_keys by blast
  then show ?case by (rule items_nonempty_not_None)
next
  case (PFloat f)
  then show ?case by (simp add: cmp_prim float_eq_def)
qed simp_all

lemma ord_self_scalar_nan:
  "is_set_order so \<Longrightarrow> wf x \<Longrightarrow> \<not> no_scalar_nan x \<Longrightarrow>
   compare_and_extract_diff_ordered so x x \<noteq> PNone"
proof (induction x)
  case (PDict m)
  from PDict.prems(3) obtain k v where kv: "(k, v) \<in> set m" "\<not> no_scalar_nan v"
    by (auto simp: list_all_iff)
  from PDict.prems(2) kv have "wf v" by (auto simp: list_all_iff)
  with PDict.IH[of "(k, v)" v] kv PDict.prems(1)
  have sub: "compare_and_extract_diff_ordered so v v \<noteq> PNone" by simp
  from PDict.prems(2) kv have g: "dict_get m k = v" by (simp add: dict_get_distinct)
  from kv have c: "dict_contains m k" by (force simp: dict_contains_iff)
  from sub g c have "ordered_item so m m k = Some (k, compare_and_extract_diff_ordered so v v)"
    by (simp add: ordered_item_def)
  moreover from kv have "k \<in> fst ` set m" by force
  with PDict.prems(1) have "k \<in> set (so (dict_keys m @ dict_keys m))"
    by (simp add: is_set_order_def dict_keys_def)
  ultimately have "k \<in> fst ` set (items (compare_and_extract_diff_ordered so (PDict m) (PDict m)))"
    unfolding ord_dict_keys by blast
  then show ?case by (rule items_nonempty_not_None)
next
  case (PFloat f)
  then show ?case by (simp add: ord_prim float_eq_def)
qed simp_all

lemma length_eq_of_keys:
  "distinct (map fst m) \<Longrightarrow> distinct (map fst n) \<Longrightarrow> fst ` set m \<subseteq> fst ` set n \<Longrightarrow>
   length m = length n \<longleftrightarrow> set (map fst m) = set (map fst n)"
proof
  assume d: "distinct (map fst m)" "distinct (map fst n)" and s: "fst ` set m \<subseteq> fst ` set n"
    and l: "length m = length n"
  have "card (set (map fst m)) = card (set (map fst n))"
    using distinct_card[OF d(1)] distinct_card[OF d(2)] l by simp
  with s show "set (map fst m) = set (map fst n)"
    by (simp add: card_subset_eq)
next
  assume d: "distinct (map fst m)" "distinct (map fst n)"
    and e: "set (map fst m) = set (map fst n)"
  then have "card (set (map fst m)) = card (set (map fst n))" by simp
  with distinct_card[OF d(1)] distinct_card[OF d(2)] show "length m = length n" by simp
qed

lemma plain_not_same: "plain a \<Longrightarrow> \<not> same_object a b"
  by (auto simp: same_object_def)

lemma py_eq_struct_eq:
  "wf a \<Longrightarrow> wf b \<Longrightarrow> plain a \<Longrightarrow> plain b \<Longrightarrow> py_eq a b \<longleftrightarrow> struct_eq a b"
proof (induction a arbitrary: b)
  case (PList xs)
  show ?case
  proof (cases b)
    case (PList ys)
    have "list_all2 (\<lambda>x y. same_object x y \<or> py_eq x y) xs ys \<longleftrightarrow>
      list_all2 struct_eq xs ys"
    proof (rule list.rel_cong[OF refl refl])
      fix x y assume "x \<in> set xs" "y \<in> set ys"
      with PList.prems \<open>b = PList ys\<close> PList.IH[of x y] plain_not_same[of x y]
      show "(same_object x y \<or> py_eq x y) = struct_eq x y" by (auto simp: list_all_iff)
    qed
    with PList show ?thesis by simp
  qed auto
next
  case (PDict m)
  show ?case
  proof (cases b)
    case b: (PDict n)
    let ?P = "\<lambda>(k, v). case map_of n k of None \<Rightarrow> False
      | Some w \<Rightarrow> same_object v w \<or> py_eq v w"
    let ?S = "\<lambda>(k, v). case map_of n k of None \<Rightarrow> False | Some w \<Rightarrow> struct_eq v w"
    have eq: "?P x = ?S x" if "x \<in> set m" for x
    proof (cases x)
      case (Pair k v)
      show ?thesis
      proof (cases "map_of n k")
        case None
        with Pair show ?thesis by simp
      next
        case (Some w)
        then have "(k, w) \<in> set n" by (rule map_of_SomeD)
        with PDict.prems b that Pair have "wf v" "wf w" "plain v" "plain w"
          by (auto simp: list_all_iff)
        with PDict.IH[of x v w] that Pair plain_not_same[of v w]
        have "(same_object v w \<or> py_eq v w) = struct_eq v w" by simp
        with Some Pair show ?thesis by simp
      qed
    qed
    then have all: "list_all ?P m = list_all ?S m" by (auto simp: list_all_iff)
    show ?thesis
    proof (cases "list_all ?S m")
      case True
      have "fst ` set m \<subseteq> fst ` set n"
      proof
        fix k assume "k \<in> fst ` set m"
        then obtain v where kv: "(k, v) \<in> set m" by auto
        with True have "map_of n k \<noteq> None"
          by (auto simp: list_all_iff split: option.splits)
        then show "k \<in> fst ` set n" by (simp add: map_of_eq_None_iff)
      qed
      with PDict.prems b have "length m = length n \<longleftrightarrow> set (map fst m) = set (map fst n)"
        by (intro length_eq_of_keys) simp_all
      with all b show ?thesis by simp
    next
      case False
      with all b show ?thesis by simp
    qed
  qed auto
next
  case PNone
  then show ?case by (cases b) auto
next
  case (PInt i)
  then show ?case by (cases b) (auto simp: float_eq_def)
next
  case (PStr s)
  then show ?case by (cases b) auto
qed auto

lemma map_filter_keys_subset:
  "(\<And>x k v. x \<in> set xs \<Longrightarrow> f x = Some (k, v) \<Longrightarrow> k = g x) \<Longrightarrow>
   fst ` set (List.map_filter f xs) \<subseteq> g ` set xs"
  by (induction xs) (auto simp: List.map_filter_simps split: option.splits)

lemma map_filter_keys_order:
  assumes "\<And>x k v. x \<in> set xs \<Longrightarrow> f x = Some (k, v) \<Longrightarrow> k = g x"
    and "distinct (map g xs)"
  shows "map fst (List.map_filter f xs) =
     filter (\<lambda>k. k \<in> fst ` set (List.map_filter f xs)) (map g xs)"
  using assms
proof (induction xs)
  case Nil
  then show ?case by (simp add: List.map_filter_simps)
next
  case (Cons x xs)
  have sub: "fst ` set (List.map_filter f xs) \<subseteq> g ` set xs"
    using Cons.prems(1) by (intro map_filter_keys_subset) auto
  have fresh: "g x \<notin> g ` set xs" using Cons.prems(2) by simp
  have IH: "map fst (List.map_filter f xs) =
     filter (\<lambda>k. k \<in> fst ` set (List.map_filter f xs)) (map g xs)"
    using Cons.prems by (intro Cons.IH) auto
  show ?case
  proof (cases "f x")
    case None
    with sub fresh IH show ?thesis by (auto simp: List.map_filter_simps)
  next
    case (Some e)
    obtain k v where e: "e = (k, v)" by (cases e)
    with Some Cons.prems(1)[of x k v] have k: "k = g x" by simp
    have "filter (\<lambda>k'. k' \<in> insert (g x) (fst ` set (List.map_filter f xs))) (map g xs) =
      filter (\<lambda>k'. k' \<in> fst ` set (List.map_filter f xs)) (map g xs)"
      using fresh by (intro filter_cong) (auto simp: image_iff)
    with Some e k IH show ?thesis by (simp add: List.map_filter_simps)
  qed
qed

lemma cmp_dict_items:
  "distinct (map fst lm) \<Longrightarrow>
   items (compare_and_extract_diff (PDict lm) (PDict dm)) = List.map_filter (main_item dm) lm"
proof -
  assume d: "distinct (map fst lm)"
  have "fold (\<lambda>e. store (main_item dm e)) lm [] = [] @ List.map_filter (main_item dm) lm"
    using d by (intro fold_store[where g = fst]) (auto dest: main_item_key)
  then show ?thesis by (simp add: cmp_dict Let_def)
qed

lemma ord_dict_items:
  "distinct (so (dict_keys lm @ dict_keys dm)) \<Longrightarrow>
   items (compare_and_extract_diff_ordered so (PDict lm) (PDict dm)) =
     List.map_filter (ordered_item so lm dm) (so (dict_keys lm @ dict_keys dm))"
proof -
  assume d: "distinct (so (dict_keys lm @ dict_keys dm))"
  have "fold (\<lambda>k. store (ordered_item so lm dm k)) (so (dict_keys lm @ dict_keys dm)) [] =
     [] @ List.map_filter (ordered_item so lm dm) (so (dict_keys lm @ dict_keys dm))"
    using d by (intro fold_store[where g = "\<lambda>k. k"]) (auto dest: ordered_item_key)
  then show ?thesis by (simp add: ord_dict Let_def)
qed

lemma cmp_default_order:
  "map_of dm' = map_of dm \<Longrightarrow>
   compare_and_extract_diff (PDict lm) (PDict dm') = compare_and_extract_diff (PDict lm) (PDict dm)"
proof -
  assume "map_of dm' = map_of dm"
  then have "main_item dm' = main_item dm"
    by (auto simp: fun_eq_iff main_item_def dict_contains_def dict_get_def)
  then show ?thesis by (simp add: cmp_dict)
qed

lemma struct_eq_refl: "wf x \<Longrightarrow> struct_eq x x"
proof (induction x)
  case (PList xs)
  then have "list_all2 struct_eq xs xs"
    by (auto simp: list_all_iff intro!: list.rel_refl_strong)
  then show ?case by simp
next
  case (PDict m)
  have "(case map_of m k of None \<Rightarrow> False | Some w \<Rightarrow> struct_eq v w)" if "(k, v) \<in> set m" for k v
  proof -
    from PDict.prems that have "map_of m k = Some v" by simp
    moreover from PDict.prems that have "wf v" by (auto simp: list_all_iff)
    with PDict.IH that have "struct_eq v v" by fastforce
    ultimately show ?thesis by simp
  qed
  then show ?case by (auto simp: list_all_iff)
qed auto

lemma struct_eq_dictI:
  assumes "distinct (map fst n)"
    and "\<And>k x. (k, x) \<in> set m \<Longrightarrow> \<exists>y. (k, y) \<in> set n \<and> struct_eq x y"
    and "fst ` set n \<subseteq> fst ` set m"
  shows "struct_eq (PDict m) (PDict n)"
proof -
  have "fst ` set m \<subseteq> fst ` set n"
    using assms(2) by (force simp: image_iff)
  with assms(3) have keys: "set (map fst m) = set (map fst n)" by auto
  have "case map_of n k of None \<Rightarrow> False | Some w \<Rightarrow> struct_eq x w" if "(k, x) \<in> set m" for k x
  proof -
    from assms(2)[OF that] obtain y where y: "(k, y) \<in> set n" "struct_eq x y" by blast
    with assms(1) have "map_of n k = Some y" by simp
    with y show ?thesis by simp
  qed
  with keys show ?thesis by (auto simp: list_all_iff)
qed

lemma struct_eq_PNone_iff: "struct_eq a b \<Longrightarrow> a = PNone \<longleftrightarrow> b = PNone"
  by (cases a; cases b) auto

lemma set_map_filter_iff:
  "e \<in> set (List.map_filter f xs) \<longleftrightarrow> (\<exists>x\<in>set xs. f x = Some e)"
  by (induction xs) (auto simp: List.map_filter_simps split: option.splits)

lemma map_filter_distinct_keys:
  assumes "\<And>x k v. x \<in> set xs \<Longrightarrow> f x = Some (k, v) \<Longrightarrow> k = g x"
    and "distinct (map g xs)"
  shows "distinct (map fst (List.map_filter f xs))"
  using map_filter_keys_order[of xs f g, OF assms] assms(2) by simp

lemma types_agree_item:
  "types_agree (PDict lm) (PDict dm) \<Longrightarrow> (k, v) \<in> set lm \<Longrightarrow> map_of dm k = Some w \<Longrightarrow>
   types_agree v w"
  by (auto simp: list_all_iff)

lemma wf_item: "wf (PDict m) \<Longrightarrow> (k, v) \<in> set m \<Longrightarrow> wf v"
  by (auto simp: list_all_iff)

lemma dict_get_Some: "map_of m k = Some w \<Longrightarrow> dict_get m k = w"
  by (simp add: dict_get_def)

lemma impl_item_agree:
  assumes lm: "distinct (map fst lm)" and kv: "(k, v) \<in> set lm" and wv: "wf v"
    and IH: "\<And>w. map_of dm k = Some w \<Longrightarrow>
      struct_eq (compare_and_extract_diff v w) (compare_and_extract_diff_ordered so v w)"
  shows "(main_item dm (k, v) = None \<longleftrightarrow> ordered_item so lm dm k = None) \<and>
    (\<forall>x y. main_item dm (k, v) = Some (k, x) \<longrightarrow> ordered_item so lm dm k = Some (k, y) \<longrightarrow>
       struct_eq x y)"
proof (cases "map_of dm k")
  case None
  from lm kv have g: "dict_get lm k = v" by (rule dict_get_distinct)
  from None g wv show ?thesis
    by (auto simp: main_item_def ordered_item_def dict_contains_def struct_eq_refl)
next
  case (Some w)
  from lm kv have g: "dict_get lm k = v" by (rule dict_get_distinct)
  from kv have c: "dict_contains lm k" by (force simp: dict_contains_iff)
  from Some have gd: "dict_get dm k = w" by (rule dict_get_Some)
  from Some have cd: "dict_contains dm k" by (simp add: dict_contains_def)
  note s = IH[OF Some]
  from struct_eq_PNone_iff[OF s] s g c gd cd show ?thesis
    by (auto simp: main_item_def ordered_item_def Let_def)
qed

lemma ordered_item_absent: "\<not> dict_contains lm k \<Longrightarrow> ordered_item so lm dm k = None"
  by (simp add: ordered_item_def dict_contains_def dict_get_def)

lemma impl_dict_agree:
  assumes lm: "distinct (map fst lm)" and so: "is_set_order so"
    and wl: "\<And>k v. (k, v) \<in> set lm \<Longrightarrow> wf v"
    and IH: "\<And>k v w. (k, v) \<in> set lm \<Longrightarrow> map_of dm k = Some w \<Longrightarrow>
      struct_eq (compare_and_extract_diff v w) (compare_and_extract_diff_ordered so v w)"
  shows "struct_eq (compare_and_extract_diff (PDict lm) (PDict dm))
    (compare_and_extract_diff_ordered so (PDict lm) (PDict dm))"
proof -
  let ?ks = "so (dict_keys lm @ dict_keys dm)"
  let ?M = "List.map_filter (main_item dm) lm"
  let ?O = "List.map_filter (ordered_item so lm dm) ?ks"
  from so have dk: "distinct ?ks" and sk: "set ?ks = set (dict_keys lm @ dict_keys dm)"
    by (simp_all add: is_set_order_def)
  have agree: "(main_item dm (k, v) = None \<longleftrightarrow> ordered_item so lm dm k = None) \<and>
    (\<forall>x y. main_item dm (k, v) = Some (k, x) \<longrightarrow> ordered_item so lm dm k = Some (k, y) \<longrightarrow>
       struct_eq x y)" if "(k, v) \<in> set lm" for k v
    using lm that wl[OF that] IH[OF that] by (rule impl_item_agree)
  have M: "items (compare_and_extract_diff (PDict lm) (PDict dm)) = ?M"
    using lm by (rule cmp_dict_items)
  have O: "items (compare_and_extract_diff_ordered so (PDict lm) (PDict dm)) = ?O"
    using dk by (rule ord_dict_items)
  have dO: "distinct (map fst ?O)"
    using dk by (intro map_filter_distinct_keys[where g = "\<lambda>k. k"]) (auto dest: ordered_item_key)
  have fwd: "\<exists>y. (k, y) \<in> set ?O \<and> struct_eq x y" if "(k, x) \<in> set ?M" for k x
  proof -
    from that obtain e where e: "e \<in> set lm" "main_item dm e = Some (k, x)"
      by (auto simp: set_map_filter_iff)
    obtain k' v where kv: "e = (k', v)" by (cases e)
    with e have "k' = k" by (auto dest: main_item_key)
    with e kv have in_lm: "(k, v) \<in> set lm" and mi: "main_item dm (k, v) = Some (k, x)" by simp_all
    from agree[OF in_lm] mi obtain e' where oi: "ordered_item so lm dm k = Some e'" by auto
    obtain k'' y where e': "e' = (k'', y)" by (cases e')
    with oi have "k'' = k" by (auto dest: ordered_item_key)
    with oi e' have oi': "ordered_item so lm dm k = Some (k, y)" by simp
    from in_lm have "k \<in> fst ` set lm" by force
    then have "k \<in> set ?ks" unfolding sk by (simp add: dict_keys_def)
    with oi' have "(k, y) \<in> set ?O" by (auto simp: set_map_filter_iff)
    moreover from agree[OF in_lm] mi oi' have "struct_eq x y" by blast
    ultimately show ?thesis by blast
  qed
  have bwd: "fst ` set ?O \<subseteq> fst ` set ?M"
  proof
    fix k assume "k \<in> fst ` set ?O"
    then obtain y where "(k, y) \<in> set ?O" by auto
    then obtain k' where k': "k' \<in> set ?ks" "ordered_item so lm dm k' = Some (k, y)"
      by (auto simp: set_map_filter_iff)
    then have "k' = k" by (auto dest: ordered_item_key)
    with k' have oi: "ordered_item so lm dm k = Some (k, y)" by simp
    then have "dict_contains lm k" using ordered_item_absent[of lm k so dm] by auto
    then have in_lm: "(k, dict_get lm k) \<in> set lm" by (rule dict_get_in)
    from agree[OF in_lm] oi obtain e where mi: "main_item dm (k, dict_get lm k) = Some e" by auto
    with in_lm have "e \<in> set ?M" by (auto simp: set_map_filter_iff)
    moreover from mi have "fst e = k" by (cases e) (auto dest: main_item_key)
    ultimately show "k \<in> fst ` set ?M" by force
  qed
  have eq: "struct_eq (PDict ?M) (PDict ?O)"
    using dO fwd bwd by (rule struct_eq_dictI)
  have empty: "?M = [] \<longleftrightarrow> ?O = []"
  proof
    assume "?M = []"
    with bwd show "?O = []" by (cases ?O) auto
  next
    assume o: "?O = []"
    show "?M = []"
    proof (cases ?M)
      case (Cons e es)
      then have "(fst e, snd e) \<in> set ?M" by simp
      from fwd[OF this] o show ?thesis by simp
    qed simp
  qed
  have cm: "compare_and_extract_diff (PDict lm) (PDict dm) = (if ?M \<noteq> [] then PDict ?M else PNone)"
    using M by (simp add: cmp_dict Let_def split: if_splits)
  have co: "compare_and_extract_diff_ordered so (PDict lm) (PDict dm) =
      (if ?O \<noteq> [] then PDict ?O else PNone)"
    using O by (simp add: ord_dict Let_def split: if_splits)
  show ?thesis
    unfolding cm co using eq empty by (cases "?M = []") simp_all
qed

lemma impl_prim_agree:
  assumes "\<not> is_map l" "\<not> is_seq l" "types_agree l d"
  shows "struct_eq (compare_and_extract_diff l d) (compare_and_extract_diff_ordered so l d)"
proof (cases "is_map d \<or> is_seq d")
  case True
  with assms have "compare_and_extract_diff l d = l" by (intro cmp_mismatch) auto
  moreover from True assms have "py_type l \<noteq> py_type d" by (cases l; cases d) auto
  then have "compare_and_extract_diff_ordered so l d = l" by (rule ord_mismatch)
  moreover from assms have "struct_eq l l" by (cases l) auto
  ultimately show ?thesis by simp
next
  case False
  with assms have c: "compare_and_extract_diff l d = (if py_eq l d then PNone else l)"
    by (intro cmp_prim) auto
  from assms have r: "struct_eq l l" by (cases l) auto
  show ?thesis
  proof (cases "py_type l = py_type d")
    case True
    with assms have "compare_and_extract_diff_ordered so l d = (if py_eq l d then PNone else l)"
      by (intro ord_prim) auto
    with c r show ?thesis by simp
  next
    case diff: False
    then have o: "compare_and_extract_diff_ordered so l d = l" by (rule ord_mismatch)
    from diff False assms have "\<not> py_eq l d" by (cases l; cases d) auto
    with c o r show ?thesis by simp
  qed
qed

lemma impl_agree:
  "wf l \<Longrightarrow> wf d \<Longrightarrow> types_agree l d \<Longrightarrow> is_set_order so \<Longrightarrow>
   struct_eq (compare_and_extract_diff l d) (compare_and_extract_diff_ordered so l d)"
proof (induction l arbitrary: d)
  case (PList xs)
  show ?case
  proof (cases "is_seq d")
    case True
    then obtain ys where "d = PList ys" by (cases d) auto
    with PList.prems(1) struct_eq_refl[of "PList xs"] show ?thesis
      by (simp add: cmp_list ord_list)
  next
    case False
    then have "compare_and_extract_diff (PList xs) d = PList xs"
      by (intro cmp_mismatch) simp
    moreover from False have "compare_and_extract_diff_ordered so (PList xs) d = PList xs"
      by (intro ord_mismatch) (cases d; simp)
    ultimately show ?thesis using struct_eq_refl[OF PList.prems(1)] by simp
  qed
next
  case (PDict lm)
  show ?case
  proof (cases "is_map d")
    case True
    then obtain dm where d: "d = PDict dm" by (cases d) auto
    show ?thesis unfolding d
    proof (rule impl_dict_agree)
      show "distinct (map fst lm)" using PDict.prems(1) by simp
      show "is_set_order so" by fact
      show "wf v" if "(k, v) \<in> set lm" for k v
        using PDict.prems(1) that by (rule wf_item)
      show "struct_eq (compare_and_extract_diff v w) (compare_and_extract_diff_ordered so v w)"
        if kv: "(k, v) \<in> set lm" and w: "map_of dm k = Some w" for k v w
      proof -
        from w have "(k, w) \<in> set dm" by (rule map_of_SomeD)
        with PDict.prems(2) d have "wf w" by (auto intro: wf_item)
        moreover from PDict.prems(1) kv have "wf v" by (rule wf_item)
        moreover from PDict.prems(3) d kv w have "types_agree v w"
          by (auto intro: types_agree_item)
        ultimately show ?thesis
          using PDict.IH[of "(k, v)" v w] kv PDict.prems(4) by simp
      qed
    qed
  next
    case False
    then have "compare_and_extract_diff (PDict lm) d = PDict lm"
      by (intro cmp_mismatch) simp
    moreover from False have "compare_and_extract_diff_ordered so (PDict lm) d = PDict lm"
      by (intro ord_mismatch) (cases d; simp)
    ultimately show ?thesis using struct_eq_refl[OF PDict.prems(1)] by simp
  qed
qed (simp_all add: impl_prim_agree)

lemma map_of_dict_set: "map_of (dict_set acc k v) = (map_of acc)(k \<mapsto> v)"
  by (induction acc k v rule: dict_set.induct) (auto simp: fun_eq_iff)

lemma distinct_dict_set:
  "distinct (map fst acc) \<Longrightarrow> distinct (map fst (dict_set acc k v))"
  by (induction acc k v rule: dict_set.induct) (auto simp: dict_set_keys)

lemma fold_set_distinct:
  "distinct (map fst acc) \<Longrightarrow>
   distinct (map fst (fold (\<lambda>(k, v) acc. dict_set acc k (g k v)) om acc))"
  by (induction om arbitrary: acc) (auto simp: distinct_dict_set)

lemma fold_set_map_of:
  "distinct (map fst om) \<Longrightarrow>
   map_of (fold (\<lambda>(k, v) acc. dict_set acc k (g k v)) om acc) k =
     (case map_of om k of None \<Rightarrow> map_of acc k | Some v \<Rightarrow> Some (g k v))"
proof (induction om arbitrary: acc)
  case Nil
  then show ?case by simp
next
  case (Cons e om)
  obtain k0 v0 where e: "e = (k0, v0)" by (cases e)
  from Cons.prems e have fresh: "map_of om k0 = None"
    by (simp add: map_of_eq_None_iff)
  from Cons.prems have "distinct (map fst om)" by simp
  note IH = Cons.IH[OF this, of "dict_set acc k0 (g k0 v0)"]
  show ?case
    using IH fresh e by (auto simp: map_of_dict_set split: option.splits)
qed

lemma merge_dict_map_of:
  "distinct (map fst om) \<Longrightarrow>
   map_of (items (merge (PDict om) (PDict bm))) k =
     (case map_of om k of None \<Rightarrow> map_of bm k
      | Some v \<Rightarrow> Some (if dict_contains bm k then merge v (dict_get bm k) else v))"
  using fold_set_map_of[of om "\<lambda>k v. if dict_contains bm k then merge v (dict_get bm k) else v" bm k]
  by simp

lemma merge_dict_distinct:
  "distinct (map fst bm) \<Longrightarrow> distinct (map fst (items (merge (PDict om) (PDict bm))))"
  using fold_set_distinct[of bm "\<lambda>k v. if dict_contains bm k then merge v (dict_get bm k) else v" om]
  by simp

lemma merge_not_both: "\<not> (is_map ov \<and> is_map b) \<Longrightarrow> merge ov b = ov"
  by (cases ov; cases b) auto

lemma reproduces_not_map:
  "\<not> is_map l \<Longrightarrow> reproduces l d m \<longleftrightarrow> m = l \<or> (m = d \<and> py_eq l d)"
  by (cases l) auto

lemma reproduces_map_not_map:
  "\<not> is_map d \<Longrightarrow> reproduces (PDict lm) d m \<longleftrightarrow> m = PDict lm"
  by (cases d) auto

lemma reproduces_dictI:
  assumes "\<And>k v. (k, v) \<in> set lm \<Longrightarrow> v = PNone \<Longrightarrow> map_of mm k = map_of dm k"
    and "\<And>k v. (k, v) \<in> set lm \<Longrightarrow> v \<noteq> PNone \<Longrightarrow>
      (case map_of mm k of None \<Rightarrow> False
       | Some w \<Rightarrow> (case map_of dm k of None \<Rightarrow> w = v | Some dv \<Rightarrow> reproduces v dv w))"
    and "\<And>k w. (k, w) \<in> set mm \<Longrightarrow> dict_contains lm k \<or> map_of dm k = Some w"
    and "\<And>k dv. (k, dv) \<in> set dm \<Longrightarrow> dict_contains lm k \<or> map_of mm k = Some dv"
  shows "reproduces (PDict lm) (PDict dm) (PDict mm)"
proof -
  have "case x of (k, v) \<Rightarrow>
          if v = PNone then map_of mm k = map_of dm k
          else (case map_of mm k of None \<Rightarrow> False
                | Some w \<Rightarrow> (case map_of dm k of None \<Rightarrow> w = v
                            | Some dv \<Rightarrow> reproduces v dv w))" if "x \<in> set lm" for x
  proof -
    obtain k v where x: "x = (k, v)" by (cases x)
    with that assms(1)[of k v] assms(2)[of k v] show ?thesis by (cases "v = PNone") simp_all
  qed
  moreover have "case x of (k, w) \<Rightarrow> dict_contains lm k \<or> map_of dm k = Some w"
    if "x \<in> set mm" for x
  proof -
    obtain k w where x: "x = (k, w)" by (cases x)
    with that assms(3)[of k w] show ?thesis by simp
  qed
  moreover have "case x of (k, dv) \<Rightarrow> dict_contains lm k \<or> map_of mm k = Some dv"
    if "x \<in> set dm" for x
  proof -
    obtain k dv where x: "x = (k, dv)" by (cases x)
    with that assms(4)[of k dv] show ?thesis by simp
  qed
  ultimately show ?thesis
    unfolding reproduces.simps(1) list_all_iff by blast
qed

lemma roundtrip_dict_none:
  assumes dd: "distinct (map fst dm)"
    and ent: "\<And>k v. (k, v) \<in> set lm \<Longrightarrow> diff_entry f dm k v = None"
    and IH: "\<And>k v dv. (k, v) \<in> set lm \<Longrightarrow> map_of dm k = Some dv \<Longrightarrow> f v dv = PNone \<Longrightarrow>
       v \<noteq> PNone \<Longrightarrow> reproduces v dv dv"
  shows "reproduces (PDict lm) (PDict dm) (PDict dm)"
proof (rule reproduces_dictI)
  fix k v assume kv: "(k, v) \<in> set lm" and nz: "v \<noteq> PNone"
  from ent[OF kv] nz obtain dv where dv: "map_of dm k = Some dv"
    by (cases "map_of dm k") (auto simp: diff_entry_def dict_contains_def)
  then have g: "dict_get dm k = dv" by (rule dict_get_Some)
  from ent[OF kv] dv g have "f v dv = PNone"
    by (auto simp: diff_entry_def dict_contains_def Let_def split: if_splits)
  from IH[OF kv dv this nz] dv
  show "case map_of dm k of None \<Rightarrow> False
       | Some w \<Rightarrow> (case map_of dm k of None \<Rightarrow> w = v | Some dv \<Rightarrow> reproduces v dv w)"
    by simp
next
  fix k w assume "(k, w) \<in> set dm"
  with dd have "map_of dm k = Some w" by simp
  then show "dict_contains lm k \<or> map_of dm k = Some w" by simp
next
  fix k dv assume "(k, dv) \<in> set dm"
  with dd have "map_of dm k = Some dv" by simp
  then show "dict_contains lm k \<or> map_of dm k = Some dv" by simp
qed simp

lemma roundtrip_dict_some:
  assumes dd: "distinct (map fst dm)" and dout: "distinct (map fst out)"
    and ent: "\<And>k v. (k, v) \<in> set lm \<Longrightarrow> map_of out k = diff_entry f dm k v"
    and absent: "\<And>k. k \<notin> fst ` set lm \<Longrightarrow> map_of out k = None"
    and null: "\<And>d. f PNone d = PNone"
    and IH1: "\<And>k v dv. (k, v) \<in> set lm \<Longrightarrow> map_of dm k = Some dv \<Longrightarrow> f v dv = PNone \<Longrightarrow>
       v \<noteq> PNone \<Longrightarrow> reproduces v dv dv"
    and IH2: "\<And>k v dv. (k, v) \<in> set lm \<Longrightarrow> map_of dm k = Some dv \<Longrightarrow> f v dv \<noteq> PNone \<Longrightarrow>
       reproduces v dv (merge (f v dv) dv)"
  shows "reproduces (PDict lm) (PDict dm) (merge (PDict out) (PDict dm))"
proof -
  let ?mm = "items (merge (PDict out) (PDict dm))"
  have m: "merge (PDict out) (PDict dm) = PDict ?mm" by simp
  have look: "map_of ?mm k = (case map_of out k of None \<Rightarrow> map_of dm k
      | Some v \<Rightarrow> Some (if dict_contains dm k then merge v (dict_get dm k) else v))" for k
    using dout by (rule merge_dict_map_of)
  have dmm: "distinct (map fst ?mm)" using dd by (rule merge_dict_distinct)
  have "reproduces (PDict lm) (PDict dm) (PDict ?mm)"
  proof (rule reproduces_dictI)
    fix k v assume kv: "(k, v) \<in> set lm" and z: "v = PNone"
    from ent[OF kv] z null have "map_of out k = None"
      by (simp add: diff_entry_def)
    with look[of k] show "map_of ?mm k = map_of dm k" by simp
  next
    fix k v assume kv: "(k, v) \<in> set lm" and nz: "v \<noteq> PNone"
    show "case map_of ?mm k of None \<Rightarrow> False
       | Some w \<Rightarrow> (case map_of dm k of None \<Rightarrow> w = v | Some dv \<Rightarrow> reproduces v dv w)"
    proof (cases "map_of dm k")
      case None
      with ent[OF kv] nz have "map_of out k = Some v"
        by (simp add: diff_entry_def dict_contains_def)
      with None look[of k] have "map_of ?mm k = Some v" by (simp add: dict_contains_def)
      with None show ?thesis by simp
    next
      case (Some dv)
      then have g: "dict_get dm k = dv" by (rule dict_get_Some)
      from Some have c: "dict_contains dm k" by (simp add: dict_contains_def)
      show ?thesis
      proof (cases "f v dv = PNone")
        case True
        with ent[OF kv] c g have "map_of out k = None" by (simp add: diff_entry_def)
        with look[of k] Some have "map_of ?mm k = Some dv" by simp
        with IH1[OF kv Some True nz] Some show ?thesis by simp
      next
        case nzf: False
        with ent[OF kv] c g have "map_of out k = Some (f v dv)" by (simp add: diff_entry_def)
        with look[of k] c g have "map_of ?mm k = Some (merge (f v dv) dv)" by simp
        with IH2[OF kv Some nzf] Some show ?thesis by simp
      qed
    qed
  next
    fix k w assume kw: "(k, w) \<in> set ?mm"
    show "dict_contains lm k \<or> map_of dm k = Some w"
    proof (cases "k \<in> fst ` set lm")
      case True
      then show ?thesis by (simp add: dict_contains_iff)
    next
      case False
      from dmm kw have "map_of ?mm k = Some w" by simp
      with look[of k] absent[OF False] show ?thesis by simp
    qed
  next
    fix k dv assume kd: "(k, dv) \<in> set dm"
    show "dict_contains lm k \<or> map_of ?mm k = Some dv"
    proof (cases "k \<in> fst ` set lm")
      case True
      then show ?thesis by (simp add: dict_contains_iff)
    next
      case False
      from dd kd have "map_of dm k = Some dv" by simp
      with look[of k] absent[OF False] show ?thesis by simp
    qed
  qed
  then show ?thesis by simp
qed

lemma roundtrip_not_map:
  assumes "\<not> is_map l" and "f l d = l \<or> (f l d = PNone \<and> py_eq l d)"
  shows "(f l d = PNone \<longrightarrow> l \<noteq> PNone \<longrightarrow> reproduces l d d) \<and>
    (f l d \<noteq> PNone \<longrightarrow> reproduces l d (merge (f l d) d))"
proof -
  from assms(1) have "merge l d = l" by (intro merge_not_both) simp
  with assms show ?thesis by (auto simp: reproduces_not_map)
qed

lemma roundtrip_generic:
  fixes f :: "pyval \<Rightarrow> pyval \<Rightarrow> pyval"
  assumes A1: "\<And>lm dm. distinct (map fst lm) \<Longrightarrow>
      distinct (map fst (items (f (PDict lm) (PDict dm))))"
    and A2: "\<And>lm dm k. distinct (map fst lm) \<Longrightarrow>
      map_of (items (f (PDict lm) (PDict dm))) k =
        (case map_of lm k of None \<Rightarrow> None | Some v \<Rightarrow> diff_entry f dm k v)"
    and A3: "\<And>lm dm. f (PDict lm) (PDict dm) = PNone \<or>
      f (PDict lm) (PDict dm) = PDict (items (f (PDict lm) (PDict dm)))"
    and A4: "\<And>l d. \<not> (is_map l \<and> is_map d) \<Longrightarrow> f l d = l \<or> (f l d = PNone \<and> py_eq l d)"
  shows "wf l \<Longrightarrow> wf d \<Longrightarrow>
    (f l d = PNone \<longrightarrow> l \<noteq> PNone \<longrightarrow> reproduces l d d) \<and>
    (f l d \<noteq> PNone \<longrightarrow> reproduces l d (merge (f l d) d))"
proof (induction l arbitrary: d)
  case (PDict lm)
  from PDict.prems have dl: "distinct (map fst lm)" by simp
  show ?case
  proof (cases "is_map d")
    case False
    then have nb: "\<not> (is_map (PDict lm) \<and> is_map d)" by simp
    from False have "\<not> py_eq (PDict lm) d" by (cases d) auto
    with A4[OF nb] have "f (PDict lm) d = PDict lm" by auto
    with merge_not_both[OF nb] reproduces_map_not_map[OF False] show ?thesis by simp
  next
    case True
    then obtain dm where d: "d = PDict dm" by (cases d) auto
    with PDict.prems have dd: "distinct (map fst dm)" by simp
    let ?out = "items (f (PDict lm) (PDict dm))"
    have ent: "map_of ?out k = diff_entry f dm k v" if "(k, v) \<in> set lm" for k v
      using A2[OF dl, of dm k] dl that by simp
    have absent: "map_of ?out k = None" if "k \<notin> fst ` set lm" for k
      using A2[OF dl, of dm k] that by (simp add: map_of_eq_None_iff[THEN iffD2])
    have IH: "(f v dv = PNone \<longrightarrow> v \<noteq> PNone \<longrightarrow> reproduces v dv dv) \<and>
        (f v dv \<noteq> PNone \<longrightarrow> reproduces v dv (merge (f v dv) dv))"
      if kv: "(k, v) \<in> set lm" and dv: "map_of dm k = Some dv" for k v dv
    proof -
      from PDict.prems(1) kv have "wf v" by (rule wf_item)
      moreover from dv have "(k, dv) \<in> set dm" by (rule map_of_SomeD)
      with PDict.prems(2) d have "wf dv" by (auto intro: wf_item)
      ultimately show ?thesis using PDict.IH[of "(k, v)" v dv] kv by simp
    qed
    show ?thesis unfolding d
    proof (intro conjI impI)
      assume z: "f (PDict lm) (PDict dm) = PNone"
      show "reproduces (PDict lm) (PDict dm) (PDict dm)"
      proof (rule roundtrip_dict_none[where f = f])
        show "distinct (map fst dm)" by fact
        show "diff_entry f dm k v = None" if "(k, v) \<in> set lm" for k v
          using ent[OF that] z by simp
        show "reproduces v dv dv"
          if "(k, v) \<in> set lm" "map_of dm k = Some dv" "f v dv = PNone" "v \<noteq> PNone" for k v dv
          using IH[OF that(1,2)] that(3,4) by simp
      qed
    next
      assume nz: "f (PDict lm) (PDict dm) \<noteq> PNone"
      with A3[of lm dm] have eq: "f (PDict lm) (PDict dm) = PDict ?out" by simp
      have "reproduces (PDict lm) (PDict dm) (merge (PDict ?out) (PDict dm))"
      proof (rule roundtrip_dict_some[where f = f])
        show "distinct (map fst dm)" by fact
        show "distinct (map fst ?out)" using dl by (rule A1)
        show "map_of ?out k = diff_entry f dm k v" if "(k, v) \<in> set lm" for k v
          using that by (rule ent)
        show "map_of ?out k = None" if "k \<notin> fst ` set lm" for k
          using that by (rule absent)
        show "f PNone d' = PNone" for d'
          using A4[of PNone d'] by auto
        show "reproduces v dv dv"
          if "(k, v) \<in> set lm" "map_of dm k = Some dv" "f v dv = PNone" "v \<noteq> PNone" for k v dv
          using IH[OF that(1,2)] that(3,4) by simp
        show "reproduces v dv (merge (f v dv) dv)"
          if "(k, v) \<in> set lm" "map_of dm k = Some dv" "f v dv \<noteq> PNone" for k v dv
          using IH[OF that(1,2)] that(3) by simp
      qed
      with eq show "reproduces (PDict lm) (PDict dm) (merge (f (PDict lm) (PDict dm)) (PDict dm))"
        by simp
    qed
  qed
qed (rule roundtrip_not_map, simp, rule A4, simp)+

lemma map_of_map_filter_items:
  "distinct (map fst lm) \<Longrightarrow>
   map_of (List.map_filter (\<lambda>(k, v). map_option (Pair k) (h k v)) lm) k =
     (case map_of lm k of None \<Rightarrow> None | Some v \<Rightarrow> h k v)"
proof (induction lm)
  case Nil
  then show ?case by (simp add: List.map_filter_simps)
next
  case (Cons e lm)
  obtain k0 v0 where e: "e = (k0, v0)" by (cases e)
  from Cons.prems e have fresh: "map_of lm k0 = None" by (simp add: map_of_eq_None_iff)
  from Cons.prems have "distinct (map fst lm)" by simp
  note IH = Cons.IH[OF this]
  show ?case
    using IH fresh e by (cases "h k0 v0") (auto simp: List.map_filter_simps)
qed

lemma map_of_map_filter_keys:
  "map_of (List.map_filter (\<lambda>k. map_option (Pair k) (h k)) ks) k =
     (if k \<in> set ks then h k else None)"
proof (induction ks)
  case Nil
  then show ?case by (simp add: List.map_filter_simps)
next
  case (Cons k0 ks)
  then show ?case by (cases "h k0") (auto simp: List.map_filter_simps)
qed

lemma main_item_entry:
  "main_item dm = (\<lambda>(k, v). map_option (Pair k) (diff_entry compare_and_extract_diff dm k v))"
  by (auto simp: fun_eq_iff main_item_def diff_entry_def Let_def)

lemma ordered_item_entry:
  "ordered_item so lm dm = (\<lambda>k. map_option (Pair k)
     (if dict_contains lm k
      then diff_entry (compare_and_extract_diff_ordered so) dm k (dict_get lm k) else None))"
  by (auto simp: fun_eq_iff ordered_item_def diff_entry_def Let_def dict_contains_def dict_get_def)

lemma cmp_dict_map_of:
  assumes "distinct (map fst lm)"
  shows "map_of (items (compare_and_extract_diff (PDict lm) (PDict dm))) k =
     (case map_of lm k of None \<Rightarrow> None
      | Some v \<Rightarrow> diff_entry compare_and_extract_diff dm k v)"
  unfolding cmp_dict_items[OF assms] main_item_entry
  using assms by (rule map_of_map_filter_items)

lemma ord_dict_map_of:
  assumes "distinct (map fst lm)" and "is_set_order so"
  shows "map_of (items (compare_and_extract_diff_ordered so (PDict lm) (PDict dm))) k =
     (case map_of lm k of None \<Rightarrow> None
      | Some v \<Rightarrow> diff_entry (compare_and_extract_diff_ordered so) dm k v)"
proof -
  let ?ks = "so (dict_keys lm @ dict_keys dm)"
  from assms(2) have dk: "distinct ?ks" and sk: "set ?ks = set (dict_keys lm @ dict_keys dm)"
    by (simp_all add: is_set_order_def)
  have "map_of (items (compare_and_extract_diff_ordered so (PDict lm) (PDict dm))) k =
     (if k \<in> set ?ks
      then (if dict_contains lm k
        then diff_entry (compare_and_extract_diff_ordered so) dm k (dict_get lm k) else None)
      else None)"
    unfolding ord_dict_items[of so lm dm, OF dk] ordered_item_entry
    by (rule map_of_map_filter_keys)
  also have "\<dots> = (case map_of lm k of None \<Rightarrow> None
      | Some v \<Rightarrow> diff_entry (compare_and_extract_diff_ordered so) dm k v)"
  proof (cases "map_of lm k")
    case None
    then show ?thesis by (simp add: dict_contains_def)
  next
    case (Some v)
    then have "k \<in> fst ` set lm" by (force dest: map_of_SomeD)
    then have "k \<in> set ?ks" unfolding sk by (simp add: dict_keys_def)
    with Some show ?thesis by (simp add: dict_contains_def dict_get_def)
  qed
  finally show ?thesis .
qed

lemma cmp_dict_distinct:
  assumes "distinct (map fst lm)"
  shows "distinct (map fst (items (compare_and_extract_diff (PDict lm) (PDict dm))))"
  unfolding cmp_dict_items[OF assms]
  using assms by (intro map_filter_distinct_keys[where g = fst]) (auto dest: main_item_key)

lemma ord_dict_distinct:
  assumes "is_set_order so"
  shows "distinct (map fst (items (compare_and_extract_diff_ordered so (PDict lm) (PDict dm))))"
proof -
  from assms have dk: "distinct (so (dict_keys lm @ dict_keys dm))"
    by (simp add: is_set_order_def)
  show ?thesis
    unfolding ord_dict_items[of so lm dm, OF dk]
    using dk by (intro map_filter_distinct_keys[where g = "\<lambda>k. k"]) (auto dest: ordered_item_key)
qed

lemma cmp_dict_shape:
  "compare_and_extract_diff (PDict lm) (PDict dm) = PNone \<or>
   compare_and_extract_diff (PDict lm) (PDict dm) =
     PDict (items (compare_and_extract_diff (PDict lm) (PDict dm)))"
  by (simp add: cmp_dict Let_def)

lemma ord_dict_shape:
  "compare_and_extract_diff_ordered so (PDict lm) (PDict dm) = PNone \<or>
   compare_and_extract_diff_ordered so (PDict lm) (PDict dm) =
     PDict (items (compare_and_extract_diff_ordered so (PDict lm) (PDict dm)))"
  by (simp add: ord_dict Let_def)

lemma cmp_not_both:
  "\<not> (is_map l \<and> is_map d) \<Longrightarrow>
   compare_and_extract_diff l d = l \<or> (compare_and_extract_diff l d = PNone \<and> py_eq l d)"
proof (cases "is_map l \<noteq> is_map d \<or> is_seq l \<noteq> is_seq d")
  case True
  then show ?thesis by (simp add: cmp_mismatch)
next
  case False
  assume "\<not> (is_map l \<and> is_map d)"
  with False have n: "\<not> is_map l" "\<not> is_map d" by auto
  show ?thesis
  proof (cases "is_seq l")
    case True
    with False obtain xs ys where "l = PList xs" "d = PList ys"
      by (cases l; cases d) auto
    then show ?thesis by (simp add: cmp_list del: py_eq.simps)
  next
    case s: False
    with False n have "compare_and_extract_diff l d = (if py_eq l d then PNone else l)"
      by (intro cmp_prim) auto
    then show ?thesis by auto
  qed
qed

lemma ord_not_both:
  "\<not> (is_map l \<and> is_map d) \<Longrightarrow>
   compare_and_extract_diff_ordered so l d = l \<or>
   (compare_and_extract_diff_ordered so l d = PNone \<and> py_eq l d)"
proof (cases "py_type l = py_type d")
  case False
  then show ?thesis by (simp add: ord_mismatch)
next
  case True
  assume "\<not> (is_map l \<and> is_map d)"
  with True have "\<not> is_map l" by (cases l; cases d) auto
  with True have "compare_and_extract_diff_ordered so l d = (if py_eq l d then PNone else l)"
    by (rule ord_prim)
  then show ?thesis by auto
qed

lemma cmp_roundtrip:
  "wf l \<Longrightarrow> wf d \<Longrightarrow> compare_and_extract_diff l d \<noteq> PNone \<Longrightarrow>
   reproduces l d (merge (compare_and_extract_diff l d) d)"
  using roundtrip_generic[of compare_and_extract_diff l d,
      OF cmp_dict_distinct cmp_dict_map_of cmp_dict_shape cmp_not_both]
  by simp

lemma ord_roundtrip:
  assumes "is_set_order so"
  shows "wf l \<Longrightarrow> wf d \<Longrightarrow> compare_and_extract_diff_ordered so l d \<noteq> PNone \<Longrightarrow>
   reproduces l d (merge (compare_and_extract_diff_ordered so l d) d)"
  using roundtrip_generic[of "compare_and_extract_diff_ordered so" l d,
      OF ord_dict_distinct[OF assms] ord_dict_map_of[OF _ assms] ord_dict_shape ord_not_both]
  by simp

lemma cmp_keys_local:
  "\<not> dict_contains (items l) k \<Longrightarrow> \<not> dict_contains (items (compare_and_extract_diff l d)) k"
proof (cases "is_map l \<and> is_map d")
  case True
  assume n: "\<not> dict_contains (items l) k"
  from True obtain lm dm where ld: "l = PDict lm" "d = PDict dm" by (cases l; cases d) auto
  show ?thesis
  proof
    assume "dict_contains (items (compare_and_extract_diff l d)) k"
    then obtain x v where x: "x \<in> set lm" "main_item dm x = Some (k, v)"
      by (auto simp: ld dict_contains_iff cmp_dict_keys)
    obtain k' w where kw: "x = (k', w)" by (cases x)
    with x have "k' = k" by (auto dest: main_item_key)
    with x kw have "k \<in> fst ` set lm" by force
    with n ld show False by (simp add: dict_contains_iff)
  qed
next
  case False
  assume n: "\<not> dict_contains (items l) k"
  from cmp_not_both[OF False] n show ?thesis by (auto simp: dict_contains_def)
qed

lemma ord_keys_local:
  "\<not> dict_contains (items l) k \<Longrightarrow>
   \<not> dict_contains (items (compare_and_extract_diff_ordered so l d)) k"
proof (cases "is_map l \<and> is_map d")
  case True
  assume n: "\<not> dict_contains (items l) k"
  from True obtain lm dm where ld: "l = PDict lm" "d = PDict dm" by (cases l; cases d) auto
  show ?thesis
  proof
    assume "dict_contains (items (compare_and_extract_diff_ordered so l d)) k"
    then obtain x v where "ordered_item so lm dm x = Some (k, v)"
      by (auto simp: ld dict_contains_iff ord_dict_keys)
    moreover from this have "x = k" by (auto dest: ordered_item_key)
    ultimately show False using n ld ordered_item_absent[of lm k so dm] by simp
  qed
next
  case False
  assume n: "\<not> dict_contains (items l) k"
  from ord_not_both[OF False, of so] n show ?thesis by (auto simp: dict_contains_def)
qed


lemma fold_max_ge: "x \<in> set xs \<Longrightarrow> f x \<le> fold max (map f xs) (a::nat)"
proof (induction xs arbitrary: a)
  case Nil
  then show ?case by simp
next
  case (Cons y ys)
  have mono: "b \<le> fold max (map f ys) b" for b :: nat
    by (induction ys arbitrary: b) (auto intro: order_trans[OF max.cobounded2])
  show ?case
  proof (cases "x = y")
    case True
    have "f y \<le> max (f y) a" by simp
    also have "\<dots> \<le> fold max (map f ys) (max (f y) a)" by (rule mono)
    finally show ?thesis using True by simp
  next
    case False
    with Cons.prems have "x \<in> set ys" by simp
    from Cons.IH[OF this] show ?thesis by simp
  qed
qed

lemma depth_item_less: "(k, v) \<in> set m \<Longrightarrow> depth v < depth (PDict m)"
  using fold_max_ge[of "(k, v)" m "\<lambda>(k, v). depth v" 0] by simp

lemma depth_dict_get_less:
  "dict_contains m k \<Longrightarrow> depth (dict_get m k) < depth (PDict m)"
  using dict_get_in[of m k] depth_item_less[of k "dict_get m k" m] by simp

lemma within_margin_op: "within_margin I c \<Longrightarrow> op_frames I \<le> c"
  by (simp add: within_margin_def)

lemma within_margin_ne: "within_margin I c \<Longrightarrow> ne_frames I a b \<le> depth a + c"
  by (simp add: within_margin_def)

lemma within_margin_copy: "within_margin I c \<Longrightarrow> copy_frames I v \<le> 2 * depth v + c"
  by (simp add: within_margin_def)

lemma cmp_exc_no_loop:
  "\<not> (is_map l \<and> is_map d) \<Longrightarrow>
   compare_and_extract_diff_exc I (Suc n) l d =
     (if op_frames I \<le> n \<and>
         (is_map l = is_map d \<and> is_seq l = is_seq d \<longrightarrow> ne_frames I l d \<le> n)
      then Inr (compare_and_extract_diff l d) else Inl RecursionError)"
  by (subst compare_and_extract_diff_exc.simps, subst compare_and_extract_diff.simps)
    (auto simp: Let_def py_ne_exc_def)

lemma cmp_exc_dict:
  "compare_and_extract_diff_exc I (Suc n) (PDict lm) (PDict dm) =
     (if n < op_frames I then Inl RecursionError
      else case main_loop_exc I n (PDict lm) (PDict dm) (dict_keys lm) [] of
        Inl e \<Rightarrow> Inl e
      | Inr diff_dict \<Rightarrow> Inr (if diff_dict \<noteq> [] then PDict diff_dict else PNone))"
  by (subst compare_and_extract_diff_exc.simps) simp

lemma main_loop_exc_cases:
  assumes "distinct (map fst lm)" and "set xs \<subseteq> set lm"
    and "\<And>k v. (k, v) \<in> set xs \<Longrightarrow> dict_contains dm k \<Longrightarrow>
      compare_and_extract_diff_exc I n v (dict_get dm k) =
        Inr (compare_and_extract_diff v (dict_get dm k)) \<or>
      compare_and_extract_diff_exc I n v (dict_get dm k) = Inl RecursionError"
  shows "main_loop_exc I n (PDict lm) (PDict dm) (map fst xs) acc =
     Inr (fold (\<lambda>e. store (main_item dm e)) xs acc) \<or>
     main_loop_exc I n (PDict lm) (PDict dm) (map fst xs) acc = Inl RecursionError"
  using assms(2,3)
proof (induction xs arbitrary: acc)
  case Nil
  then show ?case by simp
next
  case (Cons x xs)
  obtain k v where x: "x = (k, v)" by (cases x)
  with Cons.prems(1) assms(1) have look: "map_of lm k = Some v" by simp
  have rest: "main_loop_exc I n (PDict lm) (PDict dm) (map fst xs) acc' =
     Inr (fold (\<lambda>e. store (main_item dm e)) xs acc') \<or>
     main_loop_exc I n (PDict lm) (PDict dm) (map fst xs) acc' = Inl RecursionError" for acc'
    using Cons.prems by (intro Cons.IH) auto
  have step: "store (main_item dm (k, v)) acc =
     (if \<not> dict_contains dm k then (if v \<noteq> PNone then dict_set acc k v else acc)
      else if compare_and_extract_diff v (dict_get dm k) \<noteq> PNone
      then dict_set acc k (compare_and_extract_diff v (dict_get dm k)) else acc)"
    by (simp add: store_def main_item_def Let_def)
  show ?case
  proof (cases "dict_contains dm k")
    case False
    with x look step rest[of "store (main_item dm (k, v)) acc"] show ?thesis by auto
  next
    case True
    from Cons.prems(2)[of k v] x True
    consider "compare_and_extract_diff_exc I n v (dict_get dm k) =
        Inr (compare_and_extract_diff v (dict_get dm k))"
      | "compare_and_extract_diff_exc I n v (dict_get dm k) = Inl RecursionError" by auto
    then show ?thesis
    proof cases
      case 1
      with True x look step rest[of "store (main_item dm (k, v)) acc"] show ?thesis by auto
    next
      case 2
      with True x look show ?thesis by simp
    qed
  qed
qed

lemma main_loop_exc_fold:
  assumes "distinct (map fst lm)" and "set xs \<subseteq> set lm"
    and "\<And>k v. (k, v) \<in> set xs \<Longrightarrow> dict_contains dm k \<Longrightarrow>
      compare_and_extract_diff_exc I n v (dict_get dm k) =
        Inr (compare_and_extract_diff v (dict_get dm k))"
  shows "main_loop_exc I n (PDict lm) (PDict dm) (map fst xs) acc =
     Inr (fold (\<lambda>e. store (main_item dm e)) xs acc)"
  using assms(2,3)
proof (induction xs arbitrary: acc)
  case Nil
  then show ?case by simp
next
  case (Cons x xs)
  obtain k v where x: "x = (k, v)" by (cases x)
  with Cons.prems(1) assms(1) have look: "map_of lm k = Some v" by simp
  have rest: "main_loop_exc I n (PDict lm) (PDict dm) (map fst xs) acc' =
     Inr (fold (\<lambda>e. store (main_item dm e)) xs acc')" for acc'
    using Cons.prems by (intro Cons.IH) auto
  have step: "store (main_item dm (k, v)) acc =
     (if \<not> dict_contains dm k then (if v \<noteq> PNone then dict_set acc k v else acc)
      else if compare_and_extract_diff v (dict_get dm k) \<noteq> PNone
      then dict_set acc k (compare_and_extract_diff v (dict_get dm k)) else acc)"
    by (simp add: store_def main_item_def Let_def)
  show ?case
  proof (cases "dict_contains dm k")
    case False
    with x look rest step show ?thesis by simp
  next
    case True
    with Cons.prems(2)[of k v] x
    have "compare_and_extract_diff_exc I n v (dict_get dm k) =
        Inr (compare_and_extract_diff v (dict_get dm k))" by simp
    with True x look rest step show ?thesis by simp
  qed
qed

lemma cmp_exc_not_map_enough:
  assumes "\<not> is_map l" and "within_margin I c" and "depth l + c < n"
  shows "compare_and_extract_diff_exc I n l d = Inr (compare_and_extract_diff l d)"
proof -
  from assms(3) obtain n' where n: "n = Suc n'" by (cases n) auto
  from within_margin_op[OF assms(2)] assms(3) n have "op_frames I \<le> n'" by simp
  moreover from within_margin_ne[OF assms(2), of l d] assms(3) n
  have "ne_frames I l d \<le> n'" by simp
  ultimately show ?thesis using assms(1) by (simp add: n cmp_exc_no_loop)
qed

lemma cmp_exc_not_map_cases:
  "\<not> is_map l \<Longrightarrow>
   compare_and_extract_diff_exc I n l d = Inr (compare_and_extract_diff l d) \<or>
   compare_and_extract_diff_exc I n l d = Inl RecursionError"
  by (cases n) (simp_all add: cmp_exc_no_loop)

lemma cmp_exc_cases:
  "wf l \<Longrightarrow>
   compare_and_extract_diff_exc I n l d = Inr (compare_and_extract_diff l d) \<or>
   compare_and_extract_diff_exc I n l d = Inl RecursionError"
proof (induction l arbitrary: n d)
  case (PDict lm)
  show ?case
  proof (cases n)
    case 0
    then show ?thesis by simp
  next
    case (Suc n')
    show ?thesis
    proof (cases d)
      case d: (PDict dm)
      have "main_loop_exc I n' (PDict lm) (PDict dm) (map fst lm) [] =
         Inr (fold (\<lambda>e. store (main_item dm e)) lm []) \<or>
         main_loop_exc I n' (PDict lm) (PDict dm) (map fst lm) [] = Inl RecursionError"
      proof (rule main_loop_exc_cases)
        show "distinct (map fst lm)" using PDict.prems by simp
        show "set lm \<subseteq> set lm" by simp
        fix k v assume kv: "(k, v) \<in> set lm"
        with PDict.prems have "wf v" by (auto simp: list_all_iff)
        with PDict.IH[of "(k, v)" v n' "dict_get dm k"] kv
        show "compare_and_extract_diff_exc I n' v (dict_get dm k) =
          Inr (compare_and_extract_diff v (dict_get dm k)) \<or>
          compare_and_extract_diff_exc I n' v (dict_get dm k) = Inl RecursionError" by simp
      qed
      then show ?thesis
        by (auto simp: Suc d cmp_exc_dict cmp_dict dict_keys_def Let_def)
    qed (simp_all add: Suc cmp_exc_no_loop)
  qed
qed (rule cmp_exc_not_map_cases, simp)+

lemma cmp_exc_enough:
  "wf l \<Longrightarrow> within_margin I c \<Longrightarrow> depth l + c < n \<Longrightarrow>
   compare_and_extract_diff_exc I n l d = Inr (compare_and_extract_diff l d)"
proof (induction l arbitrary: n d)
  case (PDict lm)
  from PDict.prems(3) obtain n' where n: "n = Suc n'" by (cases n) auto
  from within_margin_op[OF PDict.prems(2)] PDict.prems(3) n have op: "op_frames I \<le> n'"
    by simp
  show ?case
  proof (cases d)
    case d: (PDict dm)
    have "main_loop_exc I n' (PDict lm) (PDict dm) (map fst lm) [] =
       Inr (fold (\<lambda>e. store (main_item dm e)) lm [])"
    proof (rule main_loop_exc_fold)
      show "distinct (map fst lm)" using PDict.prems by simp
      show "set lm \<subseteq> set lm" by simp
      fix k v assume kv: "(k, v) \<in> set lm"
      with PDict.prems have "wf v" by (auto simp: list_all_iff)
      moreover from depth_item_less[OF kv] PDict.prems(3) n have "depth v + c < n'" by simp
      ultimately show "compare_and_extract_diff_exc I n' v (dict_get dm k) =
        Inr (compare_and_extract_diff v (dict_get dm k))"
        using PDict.IH[of "(k, v)" v n' "dict_get dm k"] kv PDict.prems(2) by simp
    qed
    with op show ?thesis by (simp add: n d cmp_exc_dict cmp_dict dict_keys_def Let_def)
  qed (use op in \<open>simp_all add: n cmp_exc_no_loop\<close>)
qed (rule cmp_exc_not_map_enough, simp, assumption, assumption)+

lemma deepcopy_exc_cases:
  "deepcopy_exc I n v = Inr v \<or> deepcopy_exc I n v = Inl RecursionError"
  by (simp add: deepcopy_exc_def deepcopy_def)

lemma deepcopy_exc_enough:
  "within_margin I c \<Longrightarrow> 2 * depth v + c \<le> n \<Longrightarrow> deepcopy_exc I n v = Inr v"
  using within_margin_copy[of I c v] by (simp add: deepcopy_exc_def deepcopy_def)

lemma ord_exc_no_loop:
  assumes "\<not> (is_map l \<and> is_map d)"
  shows "compare_and_extract_diff_ordered_exc I so (Suc n) l d =
    (if n < op_frames I then Inl RecursionError
     else if py_type l \<noteq> py_type d then (if l \<noteq> PNone then deepcopy_exc I n l else Inr PNone)
     else if n < ne_frames I l d then Inl RecursionError
     else if py_eq l d then Inr PNone else deepcopy_exc I n l)"
proof -
  from assms have nm: "py_type l = py_type d \<Longrightarrow> \<not> is_map l" by (cases l; cases d) auto
  show ?thesis
    using nm
    by (subst compare_and_extract_diff_ordered_exc.simps) (auto simp: py_ne_def py_ne_exc_def)
qed

lemma ord_no_loop:
  assumes "\<not> (is_map l \<and> is_map d)"
  shows "compare_and_extract_diff_ordered so l d =
    (if py_type l \<noteq> py_type d then l else if py_eq l d then PNone else l)"
proof -
  from assms have nm: "py_type l = py_type d \<Longrightarrow> \<not> is_map l" by (cases l; cases d) auto
  then show ?thesis by (auto simp: ord_mismatch ord_prim)
qed

lemma ord_exc_no_loop_cases:
  assumes "\<not> (is_map l \<and> is_map d)"
  shows "compare_and_extract_diff_ordered_exc I so n l d =
      Inr (compare_and_extract_diff_ordered so l d) \<or>
    compare_and_extract_diff_ordered_exc I so n l d = Inl RecursionError"
proof (cases n)
  case 0
  then show ?thesis by simp
next
  case (Suc n')
  show ?thesis
    unfolding Suc ord_no_loop[OF assms] ord_exc_no_loop[OF assms]
    using deepcopy_exc_cases[of I n' l] by auto
qed

lemma ord_exc_no_loop_enough:
  assumes "\<not> (is_map l \<and> is_map d)" and "within_margin I c" and "2 * depth l + c < n"
  shows "compare_and_extract_diff_ordered_exc I so n l d =
    Inr (compare_and_extract_diff_ordered so l d)"
proof -
  from assms(3) obtain n' where n: "n = Suc n'" by (cases n) auto
  from within_margin_op[OF assms(2)] assms(3) n have op: "\<not> n' < op_frames I" by simp
  from within_margin_ne[OF assms(2), of l d] assms(3) n have ne: "\<not> n' < ne_frames I l d"
    by simp
  from assms(3) n have "deepcopy_exc I n' l = Inr l"
    by (intro deepcopy_exc_enough[OF assms(2)]) simp
  then show ?thesis
    unfolding n ord_no_loop[OF assms(1)] ord_exc_no_loop[OF assms(1)] using op ne by auto
qed

lemma ord_exc_dict:
  "compare_and_extract_diff_ordered_exc I so (Suc n) (PDict lm) (PDict dm) =
     (if n < op_frames I then Inl RecursionError
      else case ordered_loop_exc I so n (PDict lm) (PDict dm)
                  (so (dict_keys lm @ dict_keys dm)) [] of
        Inl e \<Rightarrow> Inl e
      | Inr diff_dict \<Rightarrow> Inr (if diff_dict \<noteq> [] then PDict diff_dict else PNone))"
  by (subst compare_and_extract_diff_ordered_exc.simps) simp

lemma ordered_item_step:
  "store (ordered_item so lm dm k) acc =
     (if \<not> dict_contains dm k
      then (if dict_get lm k \<noteq> PNone then dict_set acc k (dict_get lm k) else acc)
      else if \<not> dict_contains lm k then acc
      else if compare_and_extract_diff_ordered so (dict_get lm k) (dict_get dm k) \<noteq> PNone
      then dict_set acc k (compare_and_extract_diff_ordered so (dict_get lm k) (dict_get dm k))
      else acc)"
  by (simp add: store_def ordered_item_def Let_def)

lemma ordered_loop_exc_cases:
  assumes "\<And>k. k \<in> set ks \<Longrightarrow> dict_contains dm k \<Longrightarrow> dict_contains lm k \<Longrightarrow>
      compare_and_extract_diff_ordered_exc I so n (dict_get lm k) (dict_get dm k) =
        Inr (compare_and_extract_diff_ordered so (dict_get lm k) (dict_get dm k)) \<or>
      compare_and_extract_diff_ordered_exc I so n (dict_get lm k) (dict_get dm k) =
        Inl RecursionError"
  shows "ordered_loop_exc I so n (PDict lm) (PDict dm) ks acc =
     Inr (fold (\<lambda>k. store (ordered_item so lm dm k)) ks acc) \<or>
     ordered_loop_exc I so n (PDict lm) (PDict dm) ks acc = Inl RecursionError"
  using assms
proof (induction ks arbitrary: acc)
  case Nil
  then show ?case by simp
next
  case (Cons k ks)
  have rest: "ordered_loop_exc I so n (PDict lm) (PDict dm) ks acc' =
     Inr (fold (\<lambda>k. store (ordered_item so lm dm k)) ks acc') \<or>
     ordered_loop_exc I so n (PDict lm) (PDict dm) ks acc' = Inl RecursionError" for acc'
    using Cons.prems by (intro Cons.IH) auto
  note step = ordered_item_step[of so lm dm k acc]
  note r = rest[of "store (ordered_item so lm dm k) acc"]
  show ?case
  proof (cases "dict_contains dm k")
    case False
    show ?thesis
    proof (cases "dict_get lm k = PNone")
      case True
      with False step r show ?thesis by auto
    next
      case nz: False
      from deepcopy_exc_cases[of I n "dict_get lm k"] show ?thesis
      proof
        assume "deepcopy_exc I n (dict_get lm k) = Inr (dict_get lm k)"
        with False nz step r show ?thesis by auto
      next
        assume "deepcopy_exc I n (dict_get lm k) = Inl RecursionError"
        with False nz show ?thesis by simp
      qed
    qed
  next
    case True
    show ?thesis
    proof (cases "dict_contains lm k")
      case False
      with True step r show ?thesis by auto
    next
      case inl: True
      from Cons.prems[of k] True inl
      consider "compare_and_extract_diff_ordered_exc I so n (dict_get lm k) (dict_get dm k) =
          Inr (compare_and_extract_diff_ordered so (dict_get lm k) (dict_get dm k))"
        | "compare_and_extract_diff_ordered_exc I so n (dict_get lm k) (dict_get dm k) =
          Inl RecursionError" by auto
      then show ?thesis
      proof cases
        case 1
        with True inl step r show ?thesis by auto
      next
        case 2
        with True inl show ?thesis by simp
      qed
    qed
  qed
qed

lemma ordered_loop_exc_fold:
  assumes "\<And>k. k \<in> set ks \<Longrightarrow> dict_contains dm k \<Longrightarrow> dict_contains lm k \<Longrightarrow>
      compare_and_extract_diff_ordered_exc I so n (dict_get lm k) (dict_get dm k) =
        Inr (compare_and_extract_diff_ordered so (dict_get lm k) (dict_get dm k))"
    and "\<And>k. k \<in> set ks \<Longrightarrow> \<not> dict_contains dm k \<Longrightarrow> dict_get lm k \<noteq> PNone \<Longrightarrow>
      deepcopy_exc I n (dict_get lm k) = Inr (dict_get lm k)"
  shows "ordered_loop_exc I so n (PDict lm) (PDict dm) ks acc =
     Inr (fold (\<lambda>k. store (ordered_item so lm dm k)) ks acc)"
  using assms
proof (induction ks arbitrary: acc)
  case Nil
  then show ?case by simp
next
  case (Cons k ks)
  have rest: "ordered_loop_exc I so n (PDict lm) (PDict dm) ks acc' =
     Inr (fold (\<lambda>k. store (ordered_item so lm dm k)) ks acc')" for acc'
    using Cons.prems by (intro Cons.IH) auto
  note step = ordered_item_step[of so lm dm k acc]
  show ?case
  proof (cases "dict_contains dm k")
    case False
    with Cons.prems(2)[of k] rest step show ?thesis by auto
  next
    case True
    show ?thesis
    proof (cases "dict_contains lm k")
      case False
      with True rest step show ?thesis by auto
    next
      case inl: True
      with Cons.prems(1)[of k] True
      have "compare_and_extract_diff_ordered_exc I so n (dict_get lm k) (dict_get dm k) =
          Inr (compare_and_extract_diff_ordered so (dict_get lm k) (dict_get dm k))" by simp
      with True inl rest step show ?thesis by simp
    qed
  qed
qed

lemma ord_exc_cases:
  "compare_and_extract_diff_ordered_exc I so n l d =
     Inr (compare_and_extract_diff_ordered so l d) \<or>
   compare_and_extract_diff_ordered_exc I so n l d = Inl RecursionError"
proof (induction l arbitrary: n d)
  case (PDict lm)
  show ?case
  proof (cases "is_map d")
    case False
    then show ?thesis by (intro ord_exc_no_loop_cases) simp
  next
    case True
    then obtain dm where d: "d = PDict dm" by (cases d) auto
    show ?thesis
    proof (cases n)
      case 0
      then show ?thesis by simp
    next
      case (Suc n')
      have "ordered_loop_exc I so n' (PDict lm) (PDict dm) (so (dict_keys lm @ dict_keys dm)) [] =
         Inr (fold (\<lambda>k. store (ordered_item so lm dm k)) (so (dict_keys lm @ dict_keys dm)) []) \<or>
         ordered_loop_exc I so n' (PDict lm) (PDict dm) (so (dict_keys lm @ dict_keys dm)) [] =
         Inl RecursionError"
      proof (rule ordered_loop_exc_cases)
        fix k assume "dict_contains lm k"
        then have "(k, dict_get lm k) \<in> set lm" by (rule dict_get_in)
        with PDict.IH[of "(k, dict_get lm k)" "dict_get lm k" n' "dict_get dm k"]
        show "compare_and_extract_diff_ordered_exc I so n' (dict_get lm k) (dict_get dm k) =
          Inr (compare_and_extract_diff_ordered so (dict_get lm k) (dict_get dm k)) \<or>
          compare_and_extract_diff_ordered_exc I so n' (dict_get lm k) (dict_get dm k) =
          Inl RecursionError" by simp
      qed
      then show ?thesis by (auto simp: Suc d ord_exc_dict ord_dict Let_def)
    qed
  qed
qed (rule ord_exc_no_loop_cases, simp)+

lemma depth_dict_get_le: "depth (dict_get m k) < depth (PDict m)"
proof (cases "dict_contains m k")
  case True
  then show ?thesis by (rule depth_dict_get_less)
next
  case False
  then show ?thesis by (simp add: dict_contains_def dict_get_def)
qed

lemma ord_exc_enough:
  "within_margin I c \<Longrightarrow> 2 * depth l + c < n \<Longrightarrow>
   compare_and_extract_diff_ordered_exc I so n l d =
     Inr (compare_and_extract_diff_ordered so l d)"
proof (induction l arbitrary: n d)
  case (PDict lm)
  show ?case
  proof (cases "is_map d")
    case False
    with PDict.prems show ?thesis by (intro ord_exc_no_loop_enough) simp_all
  next
    case True
    then obtain dm where d: "d = PDict dm" by (cases d) auto
    from PDict.prems obtain n' where n: "n = Suc n'" by (cases n) auto
    from within_margin_op[OF PDict.prems(1)] PDict.prems(2) n have op: "\<not> n' < op_frames I"
      by simp
    have small: "2 * depth (dict_get lm k) + c < n'" for k
      using depth_dict_get_le[of lm k] PDict.prems n by simp
    have "ordered_loop_exc I so n' (PDict lm) (PDict dm) (so (dict_keys lm @ dict_keys dm)) [] =
       Inr (fold (\<lambda>k. store (ordered_item so lm dm k)) (so (dict_keys lm @ dict_keys dm)) [])"
    proof (rule ordered_loop_exc_fold)
      fix k assume "dict_contains lm k"
      then have "(k, dict_get lm k) \<in> set lm" by (rule dict_get_in)
      with PDict.IH[of "(k, dict_get lm k)" "dict_get lm k" n' "dict_get dm k"] small[of k]
        PDict.prems(1)
      show "compare_and_extract_diff_ordered_exc I so n' (dict_get lm k) (dict_get dm k) =
        Inr (compare_and_extract_diff_ordered so (dict_get lm k) (dict_get dm k))" by simp
    next
      fix k
      from small[of k] show "deepcopy_exc I n' (dict_get lm k) = Inr (dict_get lm k)"
        by (intro deepcopy_exc_enough[OF PDict.prems(1)]) simp
    qed
    with op show ?thesis by (simp add: n d ord_exc_dict ord_dict Let_def)
  qed
qed (rule ord_exc_no_loop_enough, simp, assumption, assumption)+

lemma nested_mapping_overflow:
  "n \<le> m \<Longrightarrow>
   compare_and_extract_diff_exc I n (nested_mapping m x) (nested_mapping m y) =
     Inl RecursionError"
proof (induction n arbitrary: m)
  case 0
  then show ?case by simp
next
  case (Suc n)
  then obtain m' where m: "m = Suc m'" and le: "n \<le> m'" by (cases m) auto
  from Suc.IH[OF le] show ?case
    by (simp add: m cmp_exc_dict dict_keys_def dict_get_def dict_contains_def)
qed

lemma depth_nested_sequence: "depth (nested_sequence m v) = m + depth v"
  by (induction m) simp_all

lemma nested_sequence_overflow:
  assumes "0 < m" and "n \<le> copy_frames I (nested_sequence m (PInt i))"
  shows "compare_and_extract_diff_ordered_exc I so n (nested_sequence m (PInt i)) PNone =
    Inl RecursionError"
proof (cases n)
  case 0
  then show ?thesis by simp
next
  case (Suc n')
  from assms(1) obtain m' where m: "m = Suc m'" by (cases m) auto
  from assms(2) Suc have "deepcopy_exc I n' (nested_sequence m (PInt i)) = Inl RecursionError"
    by (simp add: deepcopy_exc_def)
  then show ?thesis
    unfolding Suc by (subst compare_and_extract_diff_ordered_exc.simps) (simp add: m)
qed

lemma wf_nested_mapping: "wf v \<Longrightarrow> wf (nested_mapping n v)"
  by (induction n) simp_all

lemma wf_nested_sequence: "wf v \<Longrightarrow> wf (nested_sequence n v)"
  by (induction n) simp_all

lemma within_margin_cpython_at_most: "within_margin cpython_at_most 4"
  by (auto simp: within_margin_def cpython_at_most_def min_def)
section \<open>The claims\<close>

text \<open>
  Claim C7 (kind-mismatch rule). For every pair of trees whose kinds (Mapping, Sequence,
  Scalar, Null) differ, both scripts return the local tree when it is not Null, and
  \<^verbatim>\<open>None\<close> when it is Null. For \<^verbatim>\<open>main-ordered.py\<close> this holds whatever the order in
  which the key set is iterated.
\<close>

theorem kind_mismatch_rule:
  "kind_of l \<noteq> kind_of d \<Longrightarrow>
     as_option (compare_and_extract_diff l d) = (if l = PNone then None else Some l) \<and>
     as_option (compare_and_extract_diff_ordered so l d) = (if l = PNone then None else Some l)"
  by (cases l; cases d) (auto simp: cmp_mismatch cmp_prim ord_mismatch as_option_def)

theorem kind_mismatch_rule_witness:
  "kind_of (PDict [(''x'', PInt 1)]) \<noteq> kind_of (PInt 5) \<and>
   as_option (compare_and_extract_diff (PDict [(''x'', PInt 1)]) (PInt 5)) =
     Some (PDict [(''x'', PInt 1)]) \<and>
   as_option (compare_and_extract_diff_ordered remdups (PDict [(''x'', PInt 1)]) (PInt 5)) =
     Some (PDict [(''x'', PInt 1)]) \<and>
   kind_of PNone \<noteq> kind_of (PDict [(''x'', PInt 1)]) \<and>
   as_option (compare_and_extract_diff PNone (PDict [(''x'', PInt 1)])) = None \<and>
   as_option (compare_and_extract_diff_ordered remdups PNone (PDict [(''x'', PInt 1)])) = None"
  using kind_mismatch_rule [of "PDict [(''x'', PInt 1)]" "PInt 5" remdups]
    kind_mismatch_rule [of PNone "PDict [(''x'', PInt 1)]" remdups]
  by simp

text \<open>
  Claim C10 (no empty Mapping result). When the kinds of local and default match, a
  result that is a Mapping has at least one key; and a Mapping comparison in which every
  local key is in the default and its recursive comparison finds no difference returns
  \<^verbatim>\<open>None\<close>, in both scripts.
\<close>

theorem no_empty_mapping_result:
  "(kind_of l = kind_of d \<longrightarrow>
      (\<forall>t. as_option (compare_and_extract_diff l d) = Some (PDict t) \<longrightarrow> t \<noteq> []) \<and>
      (\<forall>t. as_option (compare_and_extract_diff_ordered so l d) = Some (PDict t) \<longrightarrow> t \<noteq> [])) \<and>
   (list_all (\<lambda>(k, v). dict_contains dm k \<and>
        compare_and_extract_diff v (dict_get dm k) = PNone) lm \<longrightarrow>
      as_option (compare_and_extract_diff (PDict lm) (PDict dm)) = None) \<and>
   (list_all (\<lambda>(k, v). dict_contains dm k \<and>
        compare_and_extract_diff_ordered so v (dict_get dm k) = PNone) lm \<longrightarrow>
      as_option (compare_and_extract_diff_ordered so (PDict lm) (PDict dm)) = None)"
  using cmp_not_empty_dict[of l d] ord_not_empty_dict[of l d so]
    cmp_all_matching[of dm lm] ord_all_matching[of dm so lm]
  by (auto simp: as_option_def split: if_splits)

theorem no_empty_mapping_result_witness:
  "kind_of (PDict [(''a'', PInt 1), (''b'', PInt 2)]) =
     kind_of (PDict [(''b'', PInt 3), (''a'', PInt 1)]) \<and>
   as_option (compare_and_extract_diff (PDict [(''a'', PInt 1), (''b'', PInt 2)])
     (PDict [(''b'', PInt 3), (''a'', PInt 1)])) = Some (PDict [(''b'', PInt 2)]) \<and>
   as_option (compare_and_extract_diff_ordered remdups (PDict [(''a'', PInt 1), (''b'', PInt 2)])
     (PDict [(''b'', PInt 3), (''a'', PInt 1)])) = Some (PDict [(''b'', PInt 2)]) \<and>
   [(''b'', PInt 2)] \<noteq> [] \<and>
   list_all (\<lambda>(k, v). dict_contains [(''b'', PInt 3), (''a'', PInt 1)] k \<and>
     compare_and_extract_diff v (dict_get [(''b'', PInt 3), (''a'', PInt 1)] k) = PNone)
     [(''a'', PInt 1)] \<and>
   list_all (\<lambda>(k, v). dict_contains [(''b'', PInt 3), (''a'', PInt 1)] k \<and>
     compare_and_extract_diff_ordered remdups v (dict_get [(''b'', PInt 3), (''a'', PInt 1)] k) = PNone)
     [(''a'', PInt 1)] \<and>
   as_option (compare_and_extract_diff (PDict [(''a'', PInt 1)])
     (PDict [(''b'', PInt 3), (''a'', PInt 1)])) = None \<and>
   as_option (compare_and_extract_diff_ordered remdups (PDict [(''a'', PInt 1)])
     (PDict [(''b'', PInt 3), (''a'', PInt 1)])) = None"
proof -
  have k: "kind_of (PDict [(''a'', PInt 1), (''b'', PInt 2)]) =
     kind_of (PDict [(''b'', PInt 3), (''a'', PInt 1)])"
    by simp
  have e1: "as_option (compare_and_extract_diff (PDict [(''a'', PInt 1), (''b'', PInt 2)])
     (PDict [(''b'', PInt 3), (''a'', PInt 1)])) = Some (PDict [(''b'', PInt 2)])"
    by code_simp
  have e2: "as_option (compare_and_extract_diff_ordered remdups
     (PDict [(''a'', PInt 1), (''b'', PInt 2)])
     (PDict [(''b'', PInt 3), (''a'', PInt 1)])) = Some (PDict [(''b'', PInt 2)])"
    by code_simp
  have h1: "list_all (\<lambda>(k, v). dict_contains [(''b'', PInt 3), (''a'', PInt 1)] k \<and>
     compare_and_extract_diff v (dict_get [(''b'', PInt 3), (''a'', PInt 1)] k) = PNone)
     [(''a'', PInt 1)]"
    by code_simp
  have h2: "list_all (\<lambda>(k, v). dict_contains [(''b'', PInt 3), (''a'', PInt 1)] k \<and>
     compare_and_extract_diff_ordered remdups v (dict_get [(''b'', PInt 3), (''a'', PInt 1)] k) = PNone)
     [(''a'', PInt 1)]"
    by code_simp
  note t = no_empty_mapping_result [of "PDict [(''a'', PInt 1), (''b'', PInt 2)]"
      "PDict [(''b'', PInt 3), (''a'', PInt 1)]" remdups
      "[(''b'', PInt 3), (''a'', PInt 1)]" "[(''a'', PInt 1)]"]
  from t k e1 have "[(''b'', PInt 2)] \<noteq> ([] :: pydict)" by blast
  moreover from t h1 h2 have
    "as_option (compare_and_extract_diff (PDict [(''a'', PInt 1)])
       (PDict [(''b'', PInt 3), (''a'', PInt 1)])) = None \<and>
     as_option (compare_and_extract_diff_ordered remdups (PDict [(''a'', PInt 1)])
       (PDict [(''b'', PInt 3), (''a'', PInt 1)])) = None"
    by blast
  ultimately show ?thesis using k e1 e2 h1 h2 by blast
qed

text \<open>
  Claim C5 (dropped-null policy). A key of the local Mapping that the default does not
  have and whose local value is Null is not a key of the output; a local Null compared
  with any default returns \<^verbatim>\<open>None\<close>; and comparing \<^verbatim>\<open>{a: null}\<close> with \<^verbatim>\<open>{a: 1}\<close>
  returns \<^verbatim>\<open>None\<close>. All three hold in both scripts.
\<close>

theorem dropped_null_policy:
  "(distinct (map fst lm) \<and> (k, PNone) \<in> set lm \<and> \<not> dict_contains dm k \<longrightarrow>
      \<not> dict_contains (items (compare_and_extract_diff (PDict lm) (PDict dm))) k \<and>
      \<not> dict_contains (items (compare_and_extract_diff_ordered so (PDict lm) (PDict dm))) k) \<and>
   as_option (compare_and_extract_diff PNone d) = None \<and>
   as_option (compare_and_extract_diff_ordered so PNone d) = None \<and>
   as_option (compare_and_extract_diff (PDict [(''a'', PNone)]) (PDict [(''a'', PInt 1)])) = None \<and>
   as_option (compare_and_extract_diff_ordered so (PDict [(''a'', PNone)])
     (PDict [(''a'', PInt 1)])) = None"
proof -
  have ex1: "compare_and_extract_diff (PDict [(''a'', PNone)]) (PDict [(''a'', PInt 1)]) = PNone"
    by (rule cmp_all_matching) (simp add: dict_contains_def dict_get_def cmp_None_local)
  have ex2: "compare_and_extract_diff_ordered so (PDict [(''a'', PNone)])
     (PDict [(''a'', PInt 1)]) = PNone"
    by (rule ord_all_matching) (simp add: dict_contains_def dict_get_def ord_None_local)
  have main: "\<not> dict_contains (items (compare_and_extract_diff (PDict lm) (PDict dm))) k"
    if d: "distinct (map fst lm)" and m: "(k, PNone) \<in> set lm" and n: "\<not> dict_contains dm k"
  proof
    assume "dict_contains (items (compare_and_extract_diff (PDict lm) (PDict dm))) k"
    then obtain x v where x: "x \<in> set lm" "main_item dm x = Some (k, v)"
      by (auto simp: dict_contains_iff cmp_dict_keys)
    obtain k' w where xe: "x = (k', w)" by (cases x)
    with x have "k' = k" by (auto dest: main_item_key)
    with xe x d m have "w = PNone" by (auto simp: eq_key_imp_eq_value)
    with x xe n \<open>k' = k\<close> show False by (simp add: main_item_def)
  qed
  have ord: "\<not> dict_contains (items (compare_and_extract_diff_ordered so (PDict lm) (PDict dm))) k"
    if d: "distinct (map fst lm)" and m: "(k, PNone) \<in> set lm" and n: "\<not> dict_contains dm k"
  proof
    assume "dict_contains (items (compare_and_extract_diff_ordered so (PDict lm) (PDict dm))) k"
    then obtain x v where x: "ordered_item so lm dm x = Some (k, v)"
      by (auto simp: dict_contains_iff ord_dict_keys)
    then have "x = k" by (auto dest: ordered_item_key)
    moreover from d m have "dict_get lm k = PNone" by (simp add: dict_get_def)
    ultimately show False using x n by (simp add: ordered_item_def)
  qed
  show ?thesis
    using main ord ex1 ex2 by (simp add: as_option_def cmp_None_local ord_None_local)
qed

theorem dropped_null_policy_witness:
  "distinct (map fst [(''a'', PInt 1), (''n'', PNone), (''b'', PInt 2)]) \<and>
   (''n'', PNone) \<in> set [(''a'', PInt 1), (''n'', PNone), (''b'', PInt 2)] \<and>
   \<not> dict_contains [(''a'', PInt 3)] ''n'' \<and>
   \<not> dict_contains (items (compare_and_extract_diff
        (PDict [(''a'', PInt 1), (''n'', PNone), (''b'', PInt 2)]) (PDict [(''a'', PInt 3)]))) ''n'' \<and>
   \<not> dict_contains (items (compare_and_extract_diff_ordered remdups
        (PDict [(''a'', PInt 1), (''n'', PNone), (''b'', PInt 2)]) (PDict [(''a'', PInt 3)]))) ''n'' \<and>
   compare_and_extract_diff
        (PDict [(''a'', PInt 1), (''n'', PNone), (''b'', PInt 2)]) (PDict [(''a'', PInt 3)]) =
     PDict [(''a'', PInt 1), (''b'', PInt 2)]"
proof -
  have h: "distinct (map fst [(''a'', PInt 1), (''n'', PNone), (''b'', PInt 2)]) \<and>
   (''n'', PNone) \<in> set [(''a'', PInt 1), (''n'', PNone), (''b'', PInt 2)] \<and>
   \<not> dict_contains [(''a'', PInt 3)] ''n''"
    by (simp add: dict_contains_def)
  have e: "compare_and_extract_diff
        (PDict [(''a'', PInt 1), (''n'', PNone), (''b'', PInt 2)]) (PDict [(''a'', PInt 3)]) =
     PDict [(''a'', PInt 1), (''b'', PInt 2)]"
    by code_simp
  from h e dropped_null_policy [of "[(''a'', PInt 1), (''n'', PNone), (''b'', PInt 2)]" "''n''"
      "[(''a'', PInt 3)]" remdups PNone]
  show ?thesis by blast
qed


text \<open>
  Claim C2 (idempotence under identity), as amended. The scalar branch tests
  \<^verbatim>\<open>local_val != default_val\<close>, and \<^verbatim>\<open>nan != nan\<close> is true in Python. So comparing a
  tree with itself returns \<^verbatim>\<open>None\<close> exactly when the recursion reaches no NaN as a value
  of its own: the tree is not a NaN and no value of a Mapping, at any depth of Mappings,
  is one. A NaN inside a Sequence does no harm, because there Python takes the NaN
  object as equal to itself. This holds for both scripts.
\<close>

theorem identity_iff_no_scalar_nan:
  "wf x \<Longrightarrow>
     (no_scalar_nan x \<longrightarrow>
        as_option (compare_and_extract_diff x x) = None \<and>
        as_option (compare_and_extract_diff_ordered so x x) = None) \<and>
     (\<not> no_scalar_nan x \<longrightarrow>
        as_option (compare_and_extract_diff x x) \<noteq> None \<and>
        (is_set_order so \<longrightarrow> as_option (compare_and_extract_diff_ordered so x x) \<noteq> None))"
  using cmp_self[of x] ord_self[of x so] cmp_self_scalar_nan[of x] ord_self_scalar_nan[of so x]
  by (simp add: as_option_def)

theorem identity_iff_no_scalar_nan_witness:
  "wf (PDict [(''a'', PList [PInt 1, PFloat FNaN]), (''b'', PDict [(''c'', PBool True)])]) \<and>
   no_scalar_nan (PDict [(''a'', PList [PInt 1, PFloat FNaN]), (''b'', PDict [(''c'', PBool True)])]) \<and>
   as_option (compare_and_extract_diff
     (PDict [(''a'', PList [PInt 1, PFloat FNaN]), (''b'', PDict [(''c'', PBool True)])])
     (PDict [(''a'', PList [PInt 1, PFloat FNaN]), (''b'', PDict [(''c'', PBool True)])])) = None \<and>
   as_option (compare_and_extract_diff_ordered reverse_order
     (PDict [(''a'', PList [PInt 1, PFloat FNaN]), (''b'', PDict [(''c'', PBool True)])])
     (PDict [(''a'', PList [PInt 1, PFloat FNaN]), (''b'', PDict [(''c'', PBool True)])])) = None \<and>
   wf (PDict [(''b'', PDict [(''c'', PFloat FNaN)])]) \<and>
   \<not> no_scalar_nan (PDict [(''b'', PDict [(''c'', PFloat FNaN)])]) \<and>
   is_set_order reverse_order \<and>
   as_option (compare_and_extract_diff (PDict [(''b'', PDict [(''c'', PFloat FNaN)])])
     (PDict [(''b'', PDict [(''c'', PFloat FNaN)])])) \<noteq> None \<and>
   as_option (compare_and_extract_diff_ordered reverse_order
     (PDict [(''b'', PDict [(''c'', PFloat FNaN)])])
     (PDict [(''b'', PDict [(''c'', PFloat FNaN)])])) \<noteq> None"
proof -
  let ?x = "PDict [(''a'', PList [PInt 1, PFloat FNaN]), (''b'', PDict [(''c'', PBool True)])]"
  let ?y = "PDict [(''b'', PDict [(''c'', PFloat FNaN)])]"
  have h1: "wf ?x" "no_scalar_nan ?x" by simp_all
  have h2: "wf ?y" "\<not> no_scalar_nan ?y" by simp_all
  have h3: "is_set_order reverse_order" by (simp add: is_set_order_def reverse_order_def)
  from identity_iff_no_scalar_nan [OF h1(1), of reverse_order]
    identity_iff_no_scalar_nan [OF h2(1), of reverse_order] h1 h2 h3
  show ?thesis by blast
qed

text \<open>The claim as written, refuted at the NaN scalar and at a Mapping holding it.\<close>

theorem identity_counterexample:
  "as_option (compare_and_extract_diff (PFloat FNaN) (PFloat FNaN)) = Some (PFloat FNaN) \<and>
   as_option (compare_and_extract_diff_ordered remdups (PFloat FNaN) (PFloat FNaN)) =
     Some (PFloat FNaN) \<and>
   as_option (compare_and_extract_diff (PDict [(''a'', PFloat FNaN)])
     (PDict [(''a'', PFloat FNaN)])) = Some (PDict [(''a'', PFloat FNaN)])"
  by code_simp

text \<open>
  Claim C6 (sequence atomicity), as amended. Both scripts compare two lists with Python's
  \<^verbatim>\<open>!=\<close> and return the whole local list when it holds and \<^verbatim>\<open>None\<close> otherwise, never a
  part of the list; an empty local list against a non-empty default returns the empty
  list. That comparison is not the specification's structural equality: it compares
  numbers by value whatever their type, so it calls \<^verbatim>\<open>[True]\<close> and \<^verbatim>\<open>[1]\<close> equal. (Item
  by item it also takes a NaN as equal to itself, so \<^verbatim>\<open>[.nan]\<close> against \<^verbatim>\<open>[.nan]\<close>
  returns \<^verbatim>\<open>None\<close>.) For lists whose scalars are strings and integers only, and whose
  dicts have distinct keys, the two equalities agree and the claim holds as written.
\<close>

theorem sequence_atomicity:
  "as_option (compare_and_extract_diff (PList xs) (PList ys)) =
     (if py_eq (PList xs) (PList ys) then None else Some (PList xs)) \<and>
   as_option (compare_and_extract_diff_ordered so (PList xs) (PList ys)) =
     (if py_eq (PList xs) (PList ys) then None else Some (PList xs)) \<and>
   as_option (compare_and_extract_diff (PList []) (PList (y # ys'))) = Some (PList []) \<and>
   as_option (compare_and_extract_diff_ordered so (PList []) (PList (y # ys'))) = Some (PList []) \<and>
   (wf (PList xs) \<and> wf (PList ys) \<and> plain (PList xs) \<and> plain (PList ys) \<longrightarrow>
      as_option (compare_and_extract_diff (PList xs) (PList ys)) =
        (if struct_eq (PList xs) (PList ys) then None else Some (PList xs)) \<and>
      as_option (compare_and_extract_diff_ordered so (PList xs) (PList ys)) =
        (if struct_eq (PList xs) (PList ys) then None else Some (PList xs))) \<and>
   as_option (compare_and_extract_diff (PList [PFloat FNaN]) (PList [PFloat FNaN])) = None \<and>
   as_option (compare_and_extract_diff_ordered so (PList [PFloat FNaN]) (PList [PFloat FNaN])) =
     None"
  using py_eq_struct_eq [of "PList xs" "PList ys"]
  by (simp add: cmp_list ord_list as_option_def same_object_def)

theorem sequence_atomicity_witness:
  "wf (PList [PStr ''x'']) \<and> wf (PList [PStr ''x'', PStr ''y'']) \<and>
   plain (PList [PStr ''x'']) \<and> plain (PList [PStr ''x'', PStr ''y'']) \<and>
   \<not> struct_eq (PList [PStr ''x'']) (PList [PStr ''x'', PStr ''y'']) \<and>
   as_option (compare_and_extract_diff (PList [PStr ''x'']) (PList [PStr ''x'', PStr ''y''])) =
     Some (PList [PStr ''x'']) \<and>
   as_option (compare_and_extract_diff_ordered remdups (PList [PStr ''x''])
     (PList [PStr ''x'', PStr ''y''])) = Some (PList [PStr ''x''])"
proof -
  have h: "wf (PList [PStr ''x'']) \<and> wf (PList [PStr ''x'', PStr ''y'']) \<and>
   plain (PList [PStr ''x'']) \<and> plain (PList [PStr ''x'', PStr ''y''])"
    by simp
  have n: "\<not> struct_eq (PList [PStr ''x'']) (PList [PStr ''x'', PStr ''y''])"
    by simp
  from h n sequence_atomicity [of "[PStr ''x'']" "[PStr ''x'', PStr ''y'']" remdups]
  show ?thesis by simp
qed

text \<open>The claim as written, refuted: two lists that differ in the type of a scalar are
  structurally unequal, and both scripts return \<^verbatim>\<open>None\<close>.\<close>

theorem sequence_atomicity_counterexample:
  "\<not> struct_eq (PList [PBool True]) (PList [PInt 1]) \<and>
   as_option (compare_and_extract_diff (PList [PBool True]) (PList [PInt 1])) = None \<and>
   as_option (compare_and_extract_diff_ordered remdups (PList [PBool True]) (PList [PInt 1])) = None \<and>
   \<not> struct_eq (PList [PInt 1]) (PList [PFloat (FFin 1)]) \<and>
   as_option (compare_and_extract_diff (PList [PInt 1]) (PList [PFloat (FFin 1)])) = None \<and>
   as_option (compare_and_extract_diff_ordered remdups (PList [PInt 1]) (PList [PFloat (FFin 1)])) = None"
  by (simp add: cmp_list ord_list as_option_def float_eq_def)

text \<open>
  Claim C4 (type-sensitive scalar equality), as amended. At a node where local and default
  are each a Scalar or Null:
  \<^item> \<^verbatim>\<open>main-ordered.py\<close> returns \<^verbatim>\<open>None\<close> exactly when local is Null or local and default
    have the same type and the same value, a NaN float being different from itself;
  \<^item> \<^verbatim>\<open>main.py\<close> returns \<^verbatim>\<open>None\<close> in those cases and also when local and default are
    numbers (\<^verbatim>\<open>bool\<close>, \<^verbatim>\<open>int\<close>, \<^verbatim>\<open>float\<close>) of the same numeric value, whatever their
    types: its test is Python's \<^verbatim>\<open>!=\<close>, for which \<^verbatim>\<open>True == 1\<close> and \<^verbatim>\<open>1 == 1.0\<close>;
  \<^item> otherwise both return the local scalar; the string \<^verbatim>\<open>"1"\<close> and the integer \<^verbatim>\<open>1\<close>
    are different for both.
\<close>

theorem scalar_null_rule:
  "kind_of l \<in> {Scalar, Null} \<Longrightarrow> kind_of d \<in> {Scalar, Null} \<Longrightarrow>
     as_option (compare_and_extract_diff_ordered so l d) =
       (if l = PNone \<or> (l = d \<and> l \<noteq> PFloat FNaN) then None else Some l) \<and>
     as_option (compare_and_extract_diff l d) =
       (if l = PNone \<or> (l = d \<and> l \<noteq> PFloat FNaN) \<or>
           (num_of l \<noteq> None \<and> num_of l \<noteq> Some FNaN \<and> num_of l = num_of d)
        then None else Some l) \<and>
     as_option (compare_and_extract_diff (PStr ''1'') (PInt 1)) = Some (PStr ''1'') \<and>
     as_option (compare_and_extract_diff_ordered so (PStr ''1'') (PInt 1)) = Some (PStr ''1'')"
  by (cases l; cases d)
    (auto simp: cmp_prim ord_prim ord_mismatch as_option_def float_eq_def)

theorem scalar_null_rule_witness:
  "kind_of (PInt 1) \<in> {Scalar, Null} \<and> kind_of (PFloat (FFin 1)) \<in> {Scalar, Null} \<and>
   as_option (compare_and_extract_diff_ordered remdups (PInt 1) (PFloat (FFin 1))) = Some (PInt 1) \<and>
   as_option (compare_and_extract_diff (PInt 1) (PFloat (FFin 1))) = None \<and>
   as_option (compare_and_extract_diff_ordered remdups (PInt 2) (PInt 2)) = None \<and>
   as_option (compare_and_extract_diff (PInt 2) (PInt 3)) = Some (PInt 2)"
  using scalar_null_rule [of "PInt 1" "PFloat (FFin 1)" remdups]
    scalar_null_rule [of "PInt 2" "PInt 2" remdups]
    scalar_null_rule [of "PInt 2" "PInt 3" remdups]
  by simp

text \<open>The claim as written, refuted: \<^verbatim>\<open>True\<close> and \<^verbatim>\<open>1\<close> differ in logical type and
  \<^verbatim>\<open>main.py\<close> returns \<^verbatim>\<open>None\<close>; and a Null local against a scalar default is neither of
  the claim's two \<^verbatim>\<open>None\<close> cases, yet both scripts return \<^verbatim>\<open>None\<close>.\<close>

theorem scalar_null_rule_counterexample:
  "kind_of (PBool True) = Scalar \<and> kind_of (PInt 1) = Scalar \<and>
   \<not> struct_eq (PBool True) (PInt 1) \<and>
   as_option (compare_and_extract_diff (PBool True) (PInt 1)) = None \<and>
   kind_of PNone = Null \<and> \<not> struct_eq PNone (PInt 1) \<and>
   as_option (compare_and_extract_diff PNone (PInt 1)) = None \<and>
   as_option (compare_and_extract_diff_ordered remdups PNone (PInt 1)) = None"
  by (simp add: cmp_prim ord_mismatch as_option_def float_eq_def)

text \<open>
  Key order of the output Mapping. In \<^verbatim>\<open>main.py\<close> the keys of the output are keys of the
  local Mapping and come in the order they have there, and a default Mapping with the
  same entries in another key order gives the same result. In \<^verbatim>\<open>main-ordered.py\<close> the
  loop runs over a Python set, and the keys of the output come in the order in which
  that set is iterated.
\<close>

theorem order_preservation:
  "(distinct (map fst lm) \<longrightarrow>
      map fst (items (compare_and_extract_diff (PDict lm) (PDict dm))) =
        filter (\<lambda>k. k \<in> fst ` set (items (compare_and_extract_diff (PDict lm) (PDict dm))))
          (map fst lm)) \<and>
   (map_of dm' = map_of dm \<longrightarrow>
      compare_and_extract_diff (PDict lm) (PDict dm') =
        compare_and_extract_diff (PDict lm) (PDict dm)) \<and>
   (is_set_order so \<longrightarrow>
      map fst (items (compare_and_extract_diff_ordered so (PDict lm) (PDict dm))) =
        filter (\<lambda>k. k \<in> fst ` set (items (compare_and_extract_diff_ordered so (PDict lm) (PDict dm))))
          (so (dict_keys lm @ dict_keys dm)))"
proof (intro conjI impI)
  assume d: "distinct (map fst lm)"
  show "map fst (items (compare_and_extract_diff (PDict lm) (PDict dm))) =
        filter (\<lambda>k. k \<in> fst ` set (items (compare_and_extract_diff (PDict lm) (PDict dm))))
          (map fst lm)"
    unfolding cmp_dict_items[OF d]
    using d by (intro map_filter_keys_order) (auto dest: main_item_key)
next
  assume "map_of dm' = map_of dm"
  then show "compare_and_extract_diff (PDict lm) (PDict dm') =
        compare_and_extract_diff (PDict lm) (PDict dm)"
    by (rule cmp_default_order)
next
  assume "is_set_order so"
  then have d: "distinct (so (dict_keys lm @ dict_keys dm))"
    by (simp add: is_set_order_def)
  have "map fst (List.map_filter (ordered_item so lm dm) (so (dict_keys lm @ dict_keys dm))) =
     filter (\<lambda>k. k \<in> fst ` set (List.map_filter (ordered_item so lm dm)
        (so (dict_keys lm @ dict_keys dm))))
      (map (\<lambda>k. k) (so (dict_keys lm @ dict_keys dm)))"
    using d by (intro map_filter_keys_order) (auto dest: ordered_item_key)
  then show "map fst (items (compare_and_extract_diff_ordered so (PDict lm) (PDict dm))) =
        filter (\<lambda>k. k \<in> fst ` set (items (compare_and_extract_diff_ordered so (PDict lm) (PDict dm))))
          (so (dict_keys lm @ dict_keys dm))"
    unfolding ord_dict_items[of so lm dm, OF d] by simp
qed

theorem order_preservation_witness:
  "distinct (map fst [(''z'', PInt 1), (''m'', PInt 2), (''a'', PInt 3)]) \<and>
   map_of [(''m'', PInt 2), (''a'', PInt 0)] = map_of [(''a'', PInt 0), (''m'', PInt 2)] \<and>
   is_set_order reverse_order \<and>
   compare_and_extract_diff (PDict [(''z'', PInt 1), (''m'', PInt 2), (''a'', PInt 3)])
     (PDict [(''a'', PInt 0), (''m'', PInt 2)]) = PDict [(''z'', PInt 1), (''a'', PInt 3)] \<and>
   compare_and_extract_diff (PDict [(''z'', PInt 1), (''m'', PInt 2), (''a'', PInt 3)])
     (PDict [(''m'', PInt 2), (''a'', PInt 0)]) = PDict [(''z'', PInt 1), (''a'', PInt 3)] \<and>
   map fst (items (compare_and_extract_diff
     (PDict [(''z'', PInt 1), (''m'', PInt 2), (''a'', PInt 3)])
     (PDict [(''a'', PInt 0), (''m'', PInt 2)]))) =
     filter (\<lambda>k. k \<in> {''z'', ''a''}) (map fst [(''z'', PInt 1), (''m'', PInt 2), (''a'', PInt 3)]) \<and>
   map fst (items (compare_and_extract_diff_ordered reverse_order
     (PDict [(''z'', PInt 1), (''m'', PInt 2), (''a'', PInt 3)])
     (PDict [(''a'', PInt 0), (''m'', PInt 2)]))) =
     filter (\<lambda>k. k \<in> {''z'', ''a''}) (reverse_order [''z'', ''m'', ''a'', ''a'', ''m''])"
proof -
  let ?l = "[(''z'', PInt 1), (''m'', PInt 2), (''a'', PInt 3)]"
  let ?d = "[(''a'', PInt 0), (''m'', PInt 2)]"
  let ?d' = "[(''m'', PInt 2), (''a'', PInt 0)]"
  let ?so = reverse_order
  have h1: "distinct (map fst ?l)" by simp
  have h2: "map_of ?d' = map_of ?d" by (auto simp: fun_eq_iff)
  have h3: "is_set_order ?so" by (simp add: is_set_order_def reverse_order_def)
  have e1: "compare_and_extract_diff (PDict ?l) (PDict ?d) = PDict [(''z'', PInt 1), (''a'', PInt 3)]"
    by code_simp
  have e2: "compare_and_extract_diff_ordered ?so (PDict ?l) (PDict ?d) =
    PDict [(''a'', PInt 3), (''z'', PInt 1)]"
    by code_simp
  note t = order_preservation [of ?l ?d ?d' ?so]
  from t h2 e1 have e3: "compare_and_extract_diff (PDict ?l) (PDict ?d') =
    PDict [(''z'', PInt 1), (''a'', PInt 3)]" by simp
  from t h1 h3 have
    "map fst (items (compare_and_extract_diff (PDict ?l) (PDict ?d))) =
        filter (\<lambda>k. k \<in> fst ` set (items (compare_and_extract_diff (PDict ?l) (PDict ?d))))
          (map fst ?l)"
    "map fst (items (compare_and_extract_diff_ordered ?so (PDict ?l) (PDict ?d))) =
        filter (\<lambda>k. k \<in> fst ` set (items (compare_and_extract_diff_ordered ?so (PDict ?l) (PDict ?d))))
          (?so (dict_keys ?l @ dict_keys ?d))"
    by blast+
  then show ?thesis
    unfolding e1 e2 using h1 h2 h3 e1 e3 by (simp add: dict_keys_def insert_commute)
qed

text \<open>
  Claim C3 (order preservation). The key order of the output Mapping is to be the order
  of those keys in the local Mapping. \<^verbatim>\<open>main.py\<close> does that (the theorem above);
  \<^verbatim>\<open>main-ordered.py\<close> does not: evaluated on \<^verbatim>\<open>{a: 1, b: 2}\<close> against \<^verbatim>\<open>{}\<close> with a set
  that is iterated in the order \<^verbatim>\<open>b\<close>, \<^verbatim>\<open>a\<close>, it returns \<^verbatim>\<open>{b: 2, a: 1}\<close>.
\<close>

theorem order_lost_in_main_ordered:
  "is_set_order reverse_order \<and>
   compare_and_extract_diff_ordered reverse_order
     (PDict [(''a'', PInt 1), (''b'', PInt 2)]) (PDict []) =
     PDict [(''b'', PInt 2), (''a'', PInt 1)] \<and>
   map fst [(''b'', PInt 2), (''a'', PInt 1)] \<noteq> map fst [(''a'', PInt 1), (''b'', PInt 2)]"
proof -
  have "is_set_order reverse_order" by (simp add: is_set_order_def reverse_order_def)
  moreover have "compare_and_extract_diff_ordered reverse_order
     (PDict [(''a'', PInt 1), (''b'', PInt 2)]) (PDict []) =
     PDict [(''b'', PInt 2), (''a'', PInt 1)]"
    by code_simp
  ultimately show ?thesis by simp
qed

text \<open>
  Claim C9 (the two scripts agree), as amended. Take two trees whose dicts have distinct
  keys and in which no local primitive meets a default primitive of another type that
  Python calls equal (\<open>types_agree\<close>). Then \<^verbatim>\<open>main.py\<close> and \<^verbatim>\<open>main-ordered.py\<close> both
  return \<^verbatim>\<open>None\<close> or both return a tree, and the two trees are structurally equal: the
  same keys with structurally equal values at every level.
\<close>

theorem implementations_agree:
  "wf l \<Longrightarrow> wf d \<Longrightarrow> types_agree l d \<Longrightarrow> is_set_order so \<Longrightarrow>
     (as_option (compare_and_extract_diff l d) = None \<longleftrightarrow>
      as_option (compare_and_extract_diff_ordered so l d) = None) \<and>
     struct_eq (compare_and_extract_diff l d) (compare_and_extract_diff_ordered so l d)"
  using impl_agree[of l d so] struct_eq_PNone_iff[of "compare_and_extract_diff l d"
      "compare_and_extract_diff_ordered so l d"]
  by (simp add: as_option_def)

theorem implementations_agree_witness:
  "wf (PDict [(''a'', PInt 1), (''b'', PDict [(''x'', PBool True), (''y'', PInt 2)]), (''c'', PStr ''s'')]) \<and>
   wf (PDict [(''c'', PStr ''t''), (''b'', PDict [(''y'', PInt 1), (''x'', PBool True)])]) \<and>
   types_agree
     (PDict [(''a'', PInt 1), (''b'', PDict [(''x'', PBool True), (''y'', PInt 2)]), (''c'', PStr ''s'')])
     (PDict [(''c'', PStr ''t''), (''b'', PDict [(''y'', PInt 1), (''x'', PBool True)])]) \<and>
   is_set_order reverse_order \<and>
   compare_and_extract_diff
     (PDict [(''a'', PInt 1), (''b'', PDict [(''x'', PBool True), (''y'', PInt 2)]), (''c'', PStr ''s'')])
     (PDict [(''c'', PStr ''t''), (''b'', PDict [(''y'', PInt 1), (''x'', PBool True)])]) =
     PDict [(''a'', PInt 1), (''b'', PDict [(''y'', PInt 2)]), (''c'', PStr ''s'')] \<and>
   struct_eq (PDict [(''a'', PInt 1), (''b'', PDict [(''y'', PInt 2)]), (''c'', PStr ''s'')])
     (compare_and_extract_diff_ordered reverse_order
       (PDict [(''a'', PInt 1), (''b'', PDict [(''x'', PBool True), (''y'', PInt 2)]), (''c'', PStr ''s'')])
       (PDict [(''c'', PStr ''t''), (''b'', PDict [(''y'', PInt 1), (''x'', PBool True)])]))"
proof -
  let ?l = "PDict [(''a'', PInt 1), (''b'', PDict [(''x'', PBool True), (''y'', PInt 2)]), (''c'', PStr ''s'')]"
  let ?d = "PDict [(''c'', PStr ''t''), (''b'', PDict [(''y'', PInt 1), (''x'', PBool True)])]"
  let ?so = reverse_order
  have h1: "wf ?l" by simp
  have h2: "wf ?d" by simp
  have h3: "types_agree ?l ?d" by (simp add: float_eq_def)
  have h4: "is_set_order ?so" by (simp add: is_set_order_def reverse_order_def)
  have e: "compare_and_extract_diff ?l ?d =
     PDict [(''a'', PInt 1), (''b'', PDict [(''y'', PInt 2)]), (''c'', PStr ''s'')]"
    by code_simp
  from implementations_agree [OF h1 h2 h3 h4] h1 h2 h3 h4 e show ?thesis by simp
qed

text \<open>The claim as written, refuted: on \<^verbatim>\<open>True\<close> against \<^verbatim>\<open>1\<close>, and on \<^verbatim>\<open>1\<close> against
  \<^verbatim>\<open>1.0\<close>, \<^verbatim>\<open>main.py\<close> returns \<^verbatim>\<open>None\<close> and \<^verbatim>\<open>main-ordered.py\<close> the local value.\<close>

theorem implementations_agree_counterexample:
  "compare_and_extract_diff (PBool True) (PInt 1) = PNone \<and>
   compare_and_extract_diff_ordered remdups (PBool True) (PInt 1) = PBool True \<and>
   compare_and_extract_diff (PInt 1) (PFloat (FFin 1)) = PNone \<and>
   compare_and_extract_diff_ordered remdups (PInt 1) (PFloat (FFin 1)) = PInt 1"
  by code_simp

text \<open>
  Claim C1 (round trip), as amended. Let local and default be trees whose Mappings have
  distinct keys, and let either script return a tree \<open>D\<close>. Merging \<open>D\<close> onto the default
  gives a tree that reproduces local in the sense of \<open>reproduces\<close>. Where local and default
  are both Mappings, the merged tree is a Mapping in which
  \<^item> every local key whose value is not Null is present: with the local value itself if
    the default lacks the key, with a value that reproduces the local one in turn if not;
  \<^item> a local key whose value is Null is left as the default has it: with the default's
    value if the default has the key (so Null over Null is reproduced and Null over
    another value is not), without an entry if the default lacks the key;
  \<^item> every key that only the default has is kept with the default's value, and there
    are no other keys.

  Everywhere else the merged value is the local value itself, or it is the default's
  value where Python's \<^verbatim>\<open>==\<close> holds between the local and the default value. And a key
  that local does not have is never a key of \<open>D\<close>.
\<close>

theorem roundtrip:
  "wf l \<Longrightarrow> wf d \<Longrightarrow>
     (\<forall>D. as_option (compare_and_extract_diff l d) = Some D \<longrightarrow> reproduces l d (merge D d)) \<and>
     (is_set_order so \<longrightarrow>
        (\<forall>D. as_option (compare_and_extract_diff_ordered so l d) = Some D \<longrightarrow>
           reproduces l d (merge D d))) \<and>
     (\<not> dict_contains (items l) k \<longrightarrow>
        \<not> dict_contains (items (compare_and_extract_diff l d)) k \<and>
        \<not> dict_contains (items (compare_and_extract_diff_ordered so l d)) k)"
  using cmp_roundtrip[of l d] ord_roundtrip[of so l d] cmp_keys_local[of l k d]
    ord_keys_local[of l k so d]
  by (auto simp: as_option_def split: if_splits)

theorem roundtrip_witness:
  "wf (PDict [(''a'', PDict [(''x'', PInt 1), (''y'', PInt 2)]), (''n'', PNone), (''t'', PBool True)]) \<and>
   wf (PDict [(''t'', PInt 1), (''a'', PDict [(''x'', PInt 1), (''y'', PInt 1)]), (''z'', PInt 0)]) \<and>
   is_set_order reverse_order \<and>
   \<not> dict_contains (items
     (PDict [(''a'', PDict [(''x'', PInt 1), (''y'', PInt 2)]), (''n'', PNone), (''t'', PBool True)])) ''z'' \<and>
   as_option (compare_and_extract_diff
     (PDict [(''a'', PDict [(''x'', PInt 1), (''y'', PInt 2)]), (''n'', PNone), (''t'', PBool True)])
     (PDict [(''t'', PInt 1), (''a'', PDict [(''x'', PInt 1), (''y'', PInt 1)]), (''z'', PInt 0)])) =
     Some (PDict [(''a'', PDict [(''y'', PInt 2)])]) \<and>
   merge (PDict [(''a'', PDict [(''y'', PInt 2)])])
     (PDict [(''t'', PInt 1), (''a'', PDict [(''x'', PInt 1), (''y'', PInt 1)]), (''z'', PInt 0)]) =
     PDict [(''t'', PInt 1), (''a'', PDict [(''x'', PInt 1), (''y'', PInt 2)]), (''z'', PInt 0)] \<and>
   reproduces
     (PDict [(''a'', PDict [(''x'', PInt 1), (''y'', PInt 2)]), (''n'', PNone), (''t'', PBool True)])
     (PDict [(''t'', PInt 1), (''a'', PDict [(''x'', PInt 1), (''y'', PInt 1)]), (''z'', PInt 0)])
     (PDict [(''t'', PInt 1), (''a'', PDict [(''x'', PInt 1), (''y'', PInt 2)]), (''z'', PInt 0)]) \<and>
   as_option (compare_and_extract_diff_ordered reverse_order
     (PDict [(''a'', PDict [(''x'', PInt 1), (''y'', PInt 2)]), (''n'', PNone), (''t'', PBool True)])
     (PDict [(''t'', PInt 1), (''a'', PDict [(''x'', PInt 1), (''y'', PInt 1)]), (''z'', PInt 0)])) =
     Some (PDict [(''a'', PDict [(''y'', PInt 2)]), (''t'', PBool True)]) \<and>
   reproduces
     (PDict [(''a'', PDict [(''x'', PInt 1), (''y'', PInt 2)]), (''n'', PNone), (''t'', PBool True)])
     (PDict [(''t'', PInt 1), (''a'', PDict [(''x'', PInt 1), (''y'', PInt 1)]), (''z'', PInt 0)])
     (merge (PDict [(''a'', PDict [(''y'', PInt 2)]), (''t'', PBool True)])
       (PDict [(''t'', PInt 1), (''a'', PDict [(''x'', PInt 1), (''y'', PInt 1)]), (''z'', PInt 0)])) \<and>
   \<not> dict_contains (items (compare_and_extract_diff
     (PDict [(''a'', PDict [(''x'', PInt 1), (''y'', PInt 2)]), (''n'', PNone), (''t'', PBool True)])
     (PDict [(''t'', PInt 1), (''a'', PDict [(''x'', PInt 1), (''y'', PInt 1)]), (''z'', PInt 0)]))) ''z'' \<and>
   wf (PDict [(''a'', PList [PFloat FNaN, PBool True]), (''b'', PInt 2)]) \<and>
   wf (PDict [(''a'', PList [PFloat FNaN, PInt 1]), (''b'', PInt 3)]) \<and>
   as_option (compare_and_extract_diff
     (PDict [(''a'', PList [PFloat FNaN, PBool True]), (''b'', PInt 2)])
     (PDict [(''a'', PList [PFloat FNaN, PInt 1]), (''b'', PInt 3)])) =
     Some (PDict [(''b'', PInt 2)]) \<and>
   reproduces (PDict [(''a'', PList [PFloat FNaN, PBool True]), (''b'', PInt 2)])
     (PDict [(''a'', PList [PFloat FNaN, PInt 1]), (''b'', PInt 3)])
     (merge (PDict [(''b'', PInt 2)]) (PDict [(''a'', PList [PFloat FNaN, PInt 1]), (''b'', PInt 3)]))"
proof -
  let ?l = "PDict [(''a'', PDict [(''x'', PInt 1), (''y'', PInt 2)]), (''n'', PNone), (''t'', PBool True)]"
  let ?d = "PDict [(''t'', PInt 1), (''a'', PDict [(''x'', PInt 1), (''y'', PInt 1)]), (''z'', PInt 0)]"
  let ?so = reverse_order
  have h1: "wf ?l" by simp
  have h2: "wf ?d" by simp
  have h3: "is_set_order ?so" by (simp add: is_set_order_def reverse_order_def)
  have h4: "\<not> dict_contains (items ?l) ''z''" by (simp add: dict_contains_def)
  have e1: "as_option (compare_and_extract_diff ?l ?d) = Some (PDict [(''a'', PDict [(''y'', PInt 2)])])"
    by code_simp
  have e2: "as_option (compare_and_extract_diff_ordered ?so ?l ?d) =
     Some (PDict [(''a'', PDict [(''y'', PInt 2)]), (''t'', PBool True)])"
    by code_simp
  have e3: "merge (PDict [(''a'', PDict [(''y'', PInt 2)])]) ?d =
     PDict [(''t'', PInt 1), (''a'', PDict [(''x'', PInt 1), (''y'', PInt 2)]), (''z'', PInt 0)]"
    by code_simp
  note t = roundtrip [OF h1 h2, of ?so "''z''"]
  from t e1 have r1: "reproduces ?l ?d (merge (PDict [(''a'', PDict [(''y'', PInt 2)])]) ?d)"
    by blast
  from t h3 e2 have r2: "reproduces ?l ?d
      (merge (PDict [(''a'', PDict [(''y'', PInt 2)]), (''t'', PBool True)]) ?d)"
    by blast
  from t h4 have r3: "\<not> dict_contains (items (compare_and_extract_diff ?l ?d)) ''z''"
    by blast
  from r1 have r1': "reproduces ?l ?d
     (PDict [(''t'', PInt 1), (''a'', PDict [(''x'', PInt 1), (''y'', PInt 2)]), (''z'', PInt 0)])"
    unfolding e3 .
  let ?l2 = "PDict [(''a'', PList [PFloat FNaN, PBool True]), (''b'', PInt 2)]"
  let ?d2 = "PDict [(''a'', PList [PFloat FNaN, PInt 1]), (''b'', PInt 3)]"
  have g1: "wf ?l2" by simp
  have g2: "wf ?d2" by simp
  have e4: "as_option (compare_and_extract_diff ?l2 ?d2) = Some (PDict [(''b'', PInt 2)])"
    by code_simp
  from roundtrip [OF g1 g2, of ?so "''z''"] e4
  have r4: "reproduces ?l2 ?d2 (merge (PDict [(''b'', PInt 2)]) ?d2)" by blast
  from h1 h2 h3 h4 e1 e2 e3 r1' r2 r3 g1 g2 e4 r4 show ?thesis by blast
qed

text \<open>
  The claim as written, refuted twice, for both scripts. A local key with a Null value
  that the default does not have is dropped, so the merged tree lacks a key of local
  that is neither only in the default nor a Null over a non-null default. And a local
  list \<^verbatim>\<open>[True]\<close> over a default \<^verbatim>\<open>[1]\<close> is not emitted, so the merged tree holds a list
  that is not structurally equal to the local one.
\<close>

theorem roundtrip_counterexample:
  "as_option (compare_and_extract_diff (PDict [(''a'', PNone), (''b'', PInt 1)])
     (PDict [(''b'', PInt 2)])) = Some (PDict [(''b'', PInt 1)]) \<and>
   as_option (compare_and_extract_diff_ordered remdups (PDict [(''a'', PNone), (''b'', PInt 1)])
     (PDict [(''b'', PInt 2)])) = Some (PDict [(''b'', PInt 1)]) \<and>
   merge (PDict [(''b'', PInt 1)]) (PDict [(''b'', PInt 2)]) = PDict [(''b'', PInt 1)] \<and>
   \<not> roundtrip_stated (PDict [(''a'', PNone), (''b'', PInt 1)]) (PDict [(''b'', PInt 2)])
     (merge (PDict [(''b'', PInt 1)]) (PDict [(''b'', PInt 2)])) \<and>
   as_option (compare_and_extract_diff (PDict [(''a'', PList [PBool True]), (''b'', PInt 2)])
     (PDict [(''a'', PList [PInt 1]), (''b'', PInt 3)])) = Some (PDict [(''b'', PInt 2)]) \<and>
   as_option (compare_and_extract_diff_ordered remdups
     (PDict [(''a'', PList [PBool True]), (''b'', PInt 2)])
     (PDict [(''a'', PList [PInt 1]), (''b'', PInt 3)])) = Some (PDict [(''b'', PInt 2)]) \<and>
   merge (PDict [(''b'', PInt 2)]) (PDict [(''a'', PList [PInt 1]), (''b'', PInt 3)]) =
     PDict [(''a'', PList [PInt 1]), (''b'', PInt 2)] \<and>
   \<not> roundtrip_stated (PDict [(''a'', PList [PBool True]), (''b'', PInt 2)])
     (PDict [(''a'', PList [PInt 1]), (''b'', PInt 3)])
     (merge (PDict [(''b'', PInt 2)]) (PDict [(''a'', PList [PInt 1]), (''b'', PInt 3)]))"
  by code_simp


text \<open>
  Claim C8 (totality), as amended. Both functions are defined by recursion that ends on
  every pair of trees, and neither ever raises a \<^verbatim>\<open>KeyError\<close>, an \<^verbatim>\<open>AttributeError\<close> or a
  \<^verbatim>\<open>TypeError\<close>: with \<open>n\<close> calls still allowed by the interpreter's recursion limit, and
  whatever the operations of the interpreter and the library cost, a call returns the
  value of the plain function, which is \<^verbatim>\<open>None\<close> or a tree, or it raises
  \<^verbatim>\<open>RecursionError\<close>. With the costs within a margin \<open>c\<close>, it returns whenever the depth
  of the local tree plus \<open>c\<close> is less than \<open>n\<close> (\<^verbatim>\<open>main.py\<close>), or twice its depth plus \<open>c\<close>
  is less than \<open>n\<close> (\<^verbatim>\<open>main-ordered.py\<close>, which deep-copies what it returns). For
  \<^verbatim>\<open>main.py\<close> the local tree has the distinct keys that every Python dict has.
\<close>

theorem totality_up_to_recursion_limit:
  "wf l \<Longrightarrow>
     (compare_and_extract_diff_exc I n l d = Inr (compare_and_extract_diff l d) \<or>
      compare_and_extract_diff_exc I n l d = Inl RecursionError) \<and>
     (compare_and_extract_diff_ordered_exc I so n l d =
        Inr (compare_and_extract_diff_ordered so l d) \<or>
      compare_and_extract_diff_ordered_exc I so n l d = Inl RecursionError) \<and>
     (within_margin I c \<and> depth l + c < n \<longrightarrow>
        compare_and_extract_diff_exc I n l d = Inr (compare_and_extract_diff l d)) \<and>
     (within_margin I c \<and> 2 * depth l + c < n \<longrightarrow>
        compare_and_extract_diff_ordered_exc I so n l d =
          Inr (compare_and_extract_diff_ordered so l d))"
  using cmp_exc_cases[of l I n d] ord_exc_cases[of I so n l d] cmp_exc_enough[of l I c n d]
    ord_exc_enough[of I c l n so d]
  by blast

theorem totality_up_to_recursion_limit_witness:
  "wf (PDict [(''a'', PInt 1), (''b'', PDict [(''c'', PList [PNone])])]) \<and>
   within_margin cpython_at_most 4 \<and>
   depth (PDict [(''a'', PInt 1), (''b'', PDict [(''c'', PList [PNone])])]) + 4 < 8 \<and>
   2 * depth (PDict [(''a'', PInt 1), (''b'', PDict [(''c'', PList [PNone])])]) + 4 < 11 \<and>
   compare_and_extract_diff_exc cpython_at_most 8
     (PDict [(''a'', PInt 1), (''b'', PDict [(''c'', PList [PNone])])])
     (PDict [(''b'', PDict [(''c'', PList [])]), (''a'', PStr ''1'')]) =
     Inr (PDict [(''a'', PInt 1), (''b'', PDict [(''c'', PList [PNone])])]) \<and>
   compare_and_extract_diff_ordered_exc cpython_at_most remdups 11
     (PDict [(''a'', PInt 1), (''b'', PDict [(''c'', PList [PNone])])])
     (PDict [(''b'', PDict [(''c'', PList [])]), (''a'', PStr ''1'')]) =
     Inr (PDict [(''b'', PDict [(''c'', PList [PNone])]), (''a'', PInt 1)])"
proof -
  let ?l = "PDict [(''a'', PInt 1), (''b'', PDict [(''c'', PList [PNone])])]"
  let ?d = "PDict [(''b'', PDict [(''c'', PList [])]), (''a'', PStr ''1'')]"
  have h: "wf ?l" by simp
  note m = within_margin_cpython_at_most
  have d1: "depth ?l + 4 < 8" by simp
  have d2: "2 * depth ?l + 4 < 11" by simp
  have e1: "compare_and_extract_diff ?l ?d = ?l" by code_simp
  have e2: "compare_and_extract_diff_ordered remdups ?l ?d =
    PDict [(''b'', PDict [(''c'', PList [PNone])]), (''a'', PInt 1)]" by code_simp
  from totality_up_to_recursion_limit [OF h, of cpython_at_most 8 ?d remdups 4] m d1 e1
  have r1: "compare_and_extract_diff_exc cpython_at_most 8 ?l ?d = Inr ?l" by simp
  from totality_up_to_recursion_limit [OF h, of cpython_at_most 11 ?d remdups 4] m d2 e2
  have r2: "compare_and_extract_diff_ordered_exc cpython_at_most remdups 11 ?l ?d =
    Inr (PDict [(''b'', PDict [(''c'', PList [PNone])]), (''a'', PInt 1)])" by simp
  from h m d1 d2 r1 r2 show ?thesis by blast
qed

text \<open>
  The claim as written, refuted: with the interpreter's default limit of 1000 nested
  calls, \<^verbatim>\<open>main.py\<close> raises \<^verbatim>\<open>RecursionError\<close> on two Mappings nested 1000 deep, and
  \<^verbatim>\<open>main-ordered.py\<close> raises it, inside \<^verbatim>\<open>deepcopy\<close>, on a local Sequence nested 500 deep,
  even when nothing is counted but the functions' own calls and the two calls that
  \<^verbatim>\<open>deepcopy\<close> nests for every level. Both inputs are finite trees.
\<close>

theorem totality_counterexample:
  "wf (nested_mapping 1000 (PInt 1)) \<and> wf (nested_mapping 1000 (PInt 2)) \<and>
   compare_and_extract_diff_exc cpython_at_least 1000
     (nested_mapping 1000 (PInt 1)) (nested_mapping 1000 (PInt 2)) = Inl RecursionError \<and>
   wf (nested_sequence 500 (PInt 1)) \<and>
   compare_and_extract_diff_ordered_exc cpython_at_least remdups 1000
     (nested_sequence 500 (PInt 1)) PNone = Inl RecursionError"
  using nested_mapping_overflow[of 1000 1000 cpython_at_least "PInt 1" "PInt 2"]
    nested_sequence_overflow[of 500 1000 cpython_at_least 1 remdups]
  by (simp add: wf_nested_mapping wf_nested_sequence cpython_at_least_def depth_nested_sequence)

end
